theory Spec2Isabelle
  imports Complex_Main "HOL-Library.Word" "HOL-Library.List_Lexorder" "HOL-Library.Char_ord"
    "HOL-Library.Multiset"
begin

unbundle bit_operations_syntax

section \<open>JavaScript numbers and 32-bit operators\<close>

text \<open>
  The integers the code computes with are JavaScript numbers holding integral values;
  they are modelled as \<open>int\<close>. The bitwise operators \<open>&\<close>, \<open>|\<close>, \<open>>>\<close> and \<open><<\<close>
  convert their operands to a 32-bit two's complement integer (ToInt32), operate on the
  32 bits and deliver a signed 32-bit result; the shift count is taken modulo 32.
\<close>

type_synonym int32 = "32 word"
type_synonym byte = "8 word"

definition toInt32 :: "int \<Rightarrow> int32" where
  "toInt32 n = word_of_int n"

definition js_and :: "int \<Rightarrow> int \<Rightarrow> int" where
  "js_and a b = sint (toInt32 a AND toInt32 b)"

definition js_or :: "int \<Rightarrow> int \<Rightarrow> int" where
  "js_or a b = sint (toInt32 a OR toInt32 b)"

definition js_sar :: "int \<Rightarrow> int \<Rightarrow> int" where
  "js_sar a n = sint (signed_drop_bit (nat (n mod 32)) (toInt32 a))"

definition js_shl :: "int \<Rightarrow> int \<Rightarrow> int" where
  "js_shl a n = sint (push_bit (nat (n mod 32)) (toInt32 a))"

section \<open>exr-writer: floatToHalf\<close>

text \<open>
  \<open>floatToHalf\<close> stores its argument into a one-element \<open>Float32Array\<close> and reads the
  same four bytes back through an \<open>Int32Array\<close>. The argument of the model is that
  32-bit pattern (\<open>int32View[0]\<close>); everything after that line of the source is integer
  arithmetic and is translated operator by operator. How a number becomes that pattern
  is floating-point conversion and is not part of the model: a finite float32 value,
  a zero or an infinity has one pattern, and for NaN the engine chooses the pattern
  (IEEE conversions deliver a quiet NaN, bit 22 set).
\<close>

definition floatToHalf :: "int32 \<Rightarrow> int" where
  "floatToHalf bits =
     (let f = sint bits;
          sign = js_and (js_sar f 16) 0x8000;
          exponent = js_and (js_sar f 23) 0xff - 127 + 15;
          mantissa = js_and f 0x007fffff
      in if exponent \<le> 0 then
           (if exponent < -10 then sign
            else (let m = js_sar (js_or mantissa 0x00800000) (1 - exponent)
                  in js_or sign (js_sar m 13)))
         else if exponent = 0xff - 127 + 15 then
           (if mantissa = 0 then js_or sign 0x7c00
            else js_or (js_or sign 0x7c00) (js_sar mantissa 13))
         else if exponent > 30 then js_or sign 0x7c00
         else js_or (js_or sign (js_shl exponent 10)) (js_sar mantissa 13))"










section \<open>Typed arrays\<close>

text \<open>
  A typed array is the list of its elements; an element of a \<open>Uint8Array\<close> is a
  \<open>byte\<close>, an element of a \<open>Float32Array\<close> is its binary32 pattern. Buffers live in a
  store and are referred to by their index in it, so that allocation, aliasing and
  in-place updates of the source are visible in the model. Exceptions are values of
  \<open>js_error\<close>.

  \<open>subarray\<close> and \<open>typed_set\<close> follow \<open>TypedArray.prototype.subarray\<close> (negative
  indices count from the end, both ends are clamped) and \<open>TypedArray.prototype.set\<close>
  (a \<open>RangeError\<close> when the source does not fit at the offset).
\<close>

datatype js_error = RangeError | TypeError | Error string

type_synonym 'a store = "'a list list"

definition alloc :: "'a::zero store \<Rightarrow> nat \<Rightarrow> 'a store \<times> nat" where
  "alloc st n = (st @ [replicate n 0], length st)"

definition subarray :: "'a list \<Rightarrow> int \<Rightarrow> int \<Rightarrow> 'a list" where
  "subarray xs begin end =
     (let len = int (length xs);
          beginIndex = (if begin < 0 then max (len + begin) 0 else min begin len);
          endIndex = (if end < 0 then max (len + end) 0 else min end len);
          newLength = max (endIndex - beginIndex) 0
      in take (nat newLength) (drop (nat beginIndex) xs))"

definition typed_set :: "'a list \<Rightarrow> 'a list \<Rightarrow> int \<Rightarrow> js_error + 'a list" where
  "typed_set target source offset =
     (if offset < 0 \<or> int (length source) + offset > int (length target) then Inl RangeError
      else Inr (take (nat offset) target @ source @
                drop (nat offset + length source) target))"

section \<open>gpu-readback: flipPixelsVertically\<close>

text \<open>
  The loop of \<open>flipPixelsVertically\<close>: the only buffer written is \<open>flipped\<close>; the
  rows are read from \<open>data\<close> through \<open>subarray\<close> views.
\<close>

function flip_loop ::
  "'a store \<Rightarrow> nat \<Rightarrow> nat \<Rightarrow> int \<Rightarrow> int \<Rightarrow> int \<Rightarrow> js_error + 'a store" where
  "flip_loop st data flipped rowSize height y =
     (if y < height then
        (let srcOffset = y * rowSize;
             dstOffset = (height - 1 - y) * rowSize
         in case typed_set (st ! flipped)
                   (subarray (st ! data) srcOffset (srcOffset + rowSize)) dstOffset of
              Inl e \<Rightarrow> Inl e
            | Inr buf \<Rightarrow> flip_loop (st[flipped := buf]) data flipped rowSize height (y + 1))
      else Inr st)"
  by pat_completeness auto
termination
  by (relation "measure (\<lambda>(st, data, flipped, rowSize, height, y). nat (height - y))") auto

declare flip_loop.simps [simp del]

definition flipPixelsVertically ::
  "'a::zero store \<Rightarrow> nat \<Rightarrow> int \<Rightarrow> int \<Rightarrow> int \<Rightarrow> js_error + ('a store \<times> nat)" where
  "flipPixelsVertically st data width height channels =
     (let rowSize = width * channels;
          (st1, flipped) = alloc st (length (st ! data))
      in case flip_loop st1 data flipped rowSize height 0 of
           Inl e \<Rightarrow> Inl e
         | Inr st2 \<Rightarrow> Inr (st2, flipped))"



text \<open>Row \<open>i\<close> of a buffer whose rows have \<open>n\<close> elements.\<close>

definition row_of :: "nat \<Rightarrow> nat \<Rightarrow> 'a list \<Rightarrow> 'a list" where
  "row_of n i xs = take n (drop (i * n) xs)"


section \<open>exr-writer: DataView and ArrayBuffer\<close>

text \<open>
  \<open>le_bytes n v\<close> are the \<open>n\<close> little-endian bytes a \<open>DataView\<close> setter stores for the
  integer \<open>v\<close>: the setters convert with ToUint32, ToInt32 or ToUint16, which keep the low
  bits. A setter raises a \<open>RangeError\<close> when the bytes do not lie inside the buffer, and
  \<open>new ArrayBuffer(n)\<close> raises one for a negative length (an allocation that the engine
  cannot satisfy for lack of memory is outside the model).
\<close>

fun le_bytes :: "nat \<Rightarrow> int \<Rightarrow> byte list" where
  "le_bytes 0 v = []"
| "le_bytes (Suc n) v = word_of_int v # le_bytes n (v div 256)"

definition view_set :: "byte list \<Rightarrow> int \<Rightarrow> byte list \<Rightarrow> js_error + byte list" where
  "view_set buf byteOffset bytes =
     (if byteOffset < 0 \<or> byteOffset + int (length bytes) > int (length buf) then Inl RangeError
      else Inr (take (nat byteOffset) buf @ bytes @
                drop (nat byteOffset + length bytes) buf))"

definition setUint32 :: "byte list \<Rightarrow> int \<Rightarrow> int \<Rightarrow> js_error + byte list" where
  "setUint32 buf byteOffset v = view_set buf byteOffset (le_bytes 4 v)"

definition setInt32 :: "byte list \<Rightarrow> int \<Rightarrow> int \<Rightarrow> js_error + byte list" where
  "setInt32 buf byteOffset v = view_set buf byteOffset (le_bytes 4 v)"

definition setUint16 :: "byte list \<Rightarrow> int \<Rightarrow> int \<Rightarrow> js_error + byte list" where
  "setUint16 buf byteOffset v = view_set buf byteOffset (le_bytes 2 v)"

definition setFloat32 :: "byte list \<Rightarrow> int \<Rightarrow> int32 \<Rightarrow> js_error + byte list" where
  "setFloat32 buf byteOffset bits = view_set buf byteOffset (le_bytes 4 (uint bits))"

definition newArrayBuffer :: "int \<Rightarrow> js_error + byte list" where
  "newArrayBuffer n = (if n < 0 then Inl RangeError else Inr (replicate (nat n) 0))"

section \<open>exr-writer: header\<close>

text \<open>
  Channel names are taken to be ASCII, so that \<open>TextEncoder.encode\<close> yields one byte per
  character, \<open>toUpperCase\<close> maps \<open>a\<close>..\<open>z\<close> to \<open>A\<close>..\<open>Z\<close>, and the default
  \<open>Array.prototype.sort\<close> (by UTF-16 code units) is the lexicographic order on strings.
  The header functions fill exactly sized arrays part by part; the model concatenates the
  parts.
\<close>

datatype EXRChannelType = Half | Float

record WriteEXROptions =
  pixelType :: "EXRChannelType option"
  channels :: "string list option"

definition EXR_MAGIC :: int where "EXR_MAGIC = 0x01312f76"
definition EXR_VERSION :: int where "EXR_VERSION = 2"
definition EXR_VERSION_FLAGS :: int where "EXR_VERSION_FLAGS = 0"
definition PIXEL_TYPE_HALF :: int where "PIXEL_TYPE_HALF = 1"
definition PIXEL_TYPE_FLOAT :: int where "PIXEL_TYPE_FLOAT = 2"
definition COMPRESSION_NONE :: byte where "COMPRESSION_NONE = 0"
definition LINE_ORDER_INCREASING_Y :: byte where "LINE_ORDER_INCREASING_Y = 0"

definition stringToBytes :: "string \<Rightarrow> byte list" where
  "stringToBytes str = map of_char str @ [0]"

definition toUpperCase :: "string \<Rightarrow> string" where
  "toUpperCase str =
     map (\<lambda>c. if CHR ''a'' \<le> c \<and> c \<le> CHR ''z'' then char_of (of_char c - (32::nat)) else c) str"

definition getChannelIndex :: "string \<Rightarrow> int" where
  "getChannelIndex channel =
     (let u = toUpperCase channel
      in if u = ''R'' then 0
         else if u = ''G'' then 1
         else if u = ''B'' then 2
         else if u = ''A'' then 3
         else 0)"

definition buildBox2i :: "int \<Rightarrow> int \<Rightarrow> int \<Rightarrow> int \<Rightarrow> byte list" where
  "buildBox2i xMin yMin xMax yMax =
     le_bytes 4 xMin @ le_bytes 4 yMin @ le_bytes 4 xMax @ le_bytes 4 yMax"

definition channelEntry :: "EXRChannelType \<Rightarrow> string \<Rightarrow> byte list" where
  "channelEntry pt name =
     stringToBytes name @
     le_bytes 4 (if pt = Half then PIXEL_TYPE_HALF else PIXEL_TYPE_FLOAT) @
     [1] @ [0, 0, 0] @ le_bytes 4 1 @ le_bytes 4 1"

definition buildChannelList :: "string list \<Rightarrow> EXRChannelType \<Rightarrow> byte list" where
  "buildChannelList chans pt = concat (map (channelEntry pt) (sort chans)) @ [0]"

definition writeAttribute :: "string \<Rightarrow> string \<Rightarrow> byte list \<Rightarrow> byte list" where
  "writeAttribute name type val =
     stringToBytes name @ stringToBytes type @ le_bytes 4 (int (length val)) @ val"

definition float32_one :: int32 where "float32_one = 0x3F800000"
definition float32_zero :: int32 where "float32_zero = 0"
definition float32_nan :: int32 where "float32_nan = 0x7FC00000"

definition buildHeader :: "int \<Rightarrow> int \<Rightarrow> string list \<Rightarrow> EXRChannelType \<Rightarrow> byte list" where
  "buildHeader width height chans pt =
     concat
      [writeAttribute ''channels'' ''chlist'' (buildChannelList chans pt),
       writeAttribute ''compression'' ''compression'' [COMPRESSION_NONE],
       writeAttribute ''dataWindow'' ''box2i'' (buildBox2i 0 0 (width - 1) (height - 1)),
       writeAttribute ''displayWindow'' ''box2i'' (buildBox2i 0 0 (width - 1) (height - 1)),
       writeAttribute ''lineOrder'' ''lineOrder'' [LINE_ORDER_INCREASING_Y],
       writeAttribute ''pixelAspectRatio'' ''float'' (le_bytes 4 (uint float32_one)),
       writeAttribute ''screenWindowCenter'' ''v2f''
         (le_bytes 4 (uint float32_zero) @ le_bytes 4 (uint float32_zero)),
       writeAttribute ''screenWindowWidth'' ''float'' (le_bytes 4 (uint float32_one)),
       [0]]"

section \<open>exr-writer: writeEXR\<close>

text \<open>
  The pixels are a \<open>Float32Array\<close>, modelled by the binary32 patterns of its elements;
  reading an element and storing it again as float32 keeps its pattern.
  \<open>pixels[pixelIndex]\<close> outside the array is \<open>undefined\<close>, which both \<open>floatToHalf\<close> and
  \<open>setFloat32\<close> convert to NaN. The three loops of \<open>writeEXR\<close> thread the buffer and
  the write cursor \<open>offset\<close>.
\<close>

definition readFloat32 :: "int32 list \<Rightarrow> int \<Rightarrow> int32" where
  "readFloat32 pixels i = (if 0 \<le> i \<and> i < int (length pixels) then pixels ! nat i else float32_nan)"

function write_offset_table ::
  "byte list \<Rightarrow> int \<Rightarrow> int \<Rightarrow> int \<Rightarrow> int \<Rightarrow> int \<Rightarrow> int \<Rightarrow> js_error + (byte list \<times> int)" where
  "write_offset_table buf offset scanlineOffset scanlineHeaderSize scanlineDataSize height y =
     (if y < height then
        (case setUint32 buf offset scanlineOffset of
           Inl e \<Rightarrow> Inl e
         | Inr buf1 \<Rightarrow>
            (case setUint32 buf1 (offset + 4) 0 of
               Inl e \<Rightarrow> Inl e
             | Inr buf2 \<Rightarrow>
                 write_offset_table buf2 (offset + 8)
                   (scanlineOffset + (scanlineHeaderSize + scanlineDataSize))
                   scanlineHeaderSize scanlineDataSize height (y + 1)))
      else Inr (buf, offset))"
  by pat_completeness auto
termination
  by (relation "measure (\<lambda>(buf, offset, so, shs, sds, height, y). nat (height - y))") auto

declare write_offset_table.simps [simp del]

function write_samples ::
  "byte list \<Rightarrow> int \<Rightarrow> int32 list \<Rightarrow> EXRChannelType \<Rightarrow> int \<Rightarrow> int \<Rightarrow> int \<Rightarrow> int \<Rightarrow>
   js_error + (byte list \<times> int)" where
  "write_samples buf offset pixels pt width y channelIndex x =
     (if x < width then
        (let pixelIndex = (y * width + x) * 4 + channelIndex;
             v = readFloat32 pixels pixelIndex
         in if pt = Half then
              (case setUint16 buf offset (floatToHalf v) of
                 Inl e \<Rightarrow> Inl e
               | Inr buf1 \<Rightarrow>
                   write_samples buf1 (offset + 2) pixels pt width y channelIndex (x + 1))
            else
              (case setFloat32 buf offset v of
                 Inl e \<Rightarrow> Inl e
               | Inr buf1 \<Rightarrow>
                   write_samples buf1 (offset + 4) pixels pt width y channelIndex (x + 1)))
      else Inr (buf, offset))"
  by pat_completeness auto
termination
  by (relation "measure (\<lambda>(buf, offset, pixels, pt, width, y, ci, x). nat (width - x))") auto

declare write_samples.simps [simp del]

fun write_channels ::
  "byte list \<Rightarrow> int \<Rightarrow> int32 list \<Rightarrow> EXRChannelType \<Rightarrow> int \<Rightarrow> int \<Rightarrow> string list \<Rightarrow>
   js_error + (byte list \<times> int)" where
  "write_channels buf offset pixels pt width y [] = Inr (buf, offset)"
| "write_channels buf offset pixels pt width y (channel # rest) =
     (let channelIndex = getChannelIndex channel
      in case write_samples buf offset pixels pt width y channelIndex 0 of
           Inl e \<Rightarrow> Inl e
         | Inr (buf1, offset1) \<Rightarrow> write_channels buf1 offset1 pixels pt width y rest)"

function write_scanlines ::
  "byte list \<Rightarrow> int \<Rightarrow> int32 list \<Rightarrow> EXRChannelType \<Rightarrow> string list \<Rightarrow> int \<Rightarrow> int \<Rightarrow> int \<Rightarrow>
   int \<Rightarrow> js_error + (byte list \<times> int)" where
  "write_scanlines buf offset pixels pt chans scanlineDataSize width height y =
     (if y < height then
        (case setInt32 buf offset y of
           Inl e \<Rightarrow> Inl e
         | Inr buf1 \<Rightarrow>
            (case setUint32 buf1 (offset + 4) scanlineDataSize of
               Inl e \<Rightarrow> Inl e
             | Inr buf2 \<Rightarrow>
                (let sortedChannels = sort chans
                 in case write_channels buf2 (offset + 4 + 4) pixels pt width y sortedChannels of
                      Inl e \<Rightarrow> Inl e
                    | Inr (buf3, offset3) \<Rightarrow>
                        write_scanlines buf3 offset3 pixels pt chans scanlineDataSize
                          width height (y + 1))))
      else Inr (buf, offset))"
  by pat_completeness auto
termination
  by (relation "measure (\<lambda>(buf, offset, pixels, pt, chans, sds, width, height, y). nat (height - y))")
     auto

declare write_scanlines.simps [simp del]

definition writeEXR ::
  "int32 list \<Rightarrow> int \<Rightarrow> int \<Rightarrow> WriteEXROptions \<Rightarrow> js_error + byte list" where
  "writeEXR pixels width height options =
     (let pt = (case pixelType options of None \<Rightarrow> Half | Some t \<Rightarrow> t);
          chans = (case channels options of None \<Rightarrow> [''R'', ''G'', ''B'', ''A''] | Some cs \<Rightarrow> cs);
          numChannels = int (length chans);
          pixelSize = (if pt = Half then 2 else 4);
          scanlineDataSize = width * numChannels * pixelSize;
          header = buildHeader width height chans pt;
          offsetTableSize = height * 8;
          headerSize = int (length header);
          scanlineHeaderSize = 8;
          totalScanlineSize = (scanlineHeaderSize + scanlineDataSize) * height;
          totalSize = 4 + 4 + headerSize + offsetTableSize + totalScanlineSize
      in case newArrayBuffer totalSize of
           Inl e \<Rightarrow> Inl e
         | Inr buffer \<Rightarrow>
          (case setUint32 buffer 0 EXR_MAGIC of
             Inl e \<Rightarrow> Inl e
           | Inr buffer1 \<Rightarrow>
            (case setUint32 buffer1 4 (js_or EXR_VERSION (js_shl EXR_VERSION_FLAGS 8)) of
               Inl e \<Rightarrow> Inl e
             | Inr buffer2 \<Rightarrow>
              (case typed_set buffer2 header 8 of
                 Inl e \<Rightarrow> Inl e
               | Inr buffer3 \<Rightarrow>
                (let offsetTableStart = 8 + headerSize;
                     scanlineOffset = offsetTableStart + offsetTableSize
                 in case write_offset_table buffer3 offsetTableStart scanlineOffset
                           scanlineHeaderSize scanlineDataSize height 0 of
                      Inl e \<Rightarrow> Inl e
                    | Inr (buffer4, offset4) \<Rightarrow>
                       (case write_scanlines buffer4 offset4 pixels pt chans scanlineDataSize
                               width height 0 of
                          Inl e \<Rightarrow> Inl e
                        | Inr (buffer5, offset5) \<Rightarrow> Inr buffer5))))))"


section \<open>The OpenEXR scanline layout\<close>

text \<open>
  The file layout as the specification words it: magic, version, header, one offset entry
  per row, then one record per row; a record is the row index, the payload length and the
  payload, in which the channels follow each other in sorted order, each with its full
  row of samples. \<open>writeEXR\<close> is compared with this layout below.
\<close>

definition exr_sample :: "EXRChannelType \<Rightarrow> int32 \<Rightarrow> byte list" where
  "exr_sample pt v = (if pt = Half then le_bytes 2 (floatToHalf v) else le_bytes 4 (uint v))"

definition exr_channel_row ::
  "int32 list \<Rightarrow> EXRChannelType \<Rightarrow> int \<Rightarrow> int \<Rightarrow> string \<Rightarrow> byte list" where
  "exr_channel_row pixels pt width y channel =
     concat (map (\<lambda>x. exr_sample pt
                    (readFloat32 pixels ((y * width + int x) * 4 + getChannelIndex channel)))
                 [0..<nat width])"

definition exr_payload ::
  "int32 list \<Rightarrow> EXRChannelType \<Rightarrow> string list \<Rightarrow> int \<Rightarrow> int \<Rightarrow> byte list" where
  "exr_payload pixels pt chans width y =
     concat (map (exr_channel_row pixels pt width y) (sort chans))"

definition exr_pixel_size :: "EXRChannelType \<Rightarrow> int" where
  "exr_pixel_size pt = (if pt = Half then 2 else 4)"

definition exr_payload_size :: "EXRChannelType \<Rightarrow> string list \<Rightarrow> int \<Rightarrow> int" where
  "exr_payload_size pt chans width = width * int (length chans) * exr_pixel_size pt"

definition exr_scanline_record ::
  "int32 list \<Rightarrow> EXRChannelType \<Rightarrow> string list \<Rightarrow> int \<Rightarrow> int \<Rightarrow> byte list" where
  "exr_scanline_record pixels pt chans width y =
     le_bytes 4 y @ le_bytes 4 (exr_payload_size pt chans width) @
     exr_payload pixels pt chans width y"

definition exr_offset_entry :: "int \<Rightarrow> byte list" where
  "exr_offset_entry pos = le_bytes 4 pos @ le_bytes 4 0"

definition exr_record_position ::
  "EXRChannelType \<Rightarrow> string list \<Rightarrow> int \<Rightarrow> int \<Rightarrow> int \<Rightarrow> int" where
  "exr_record_position pt chans width height i =
     8 + int (length (buildHeader width height chans pt)) + 8 * height +
     i * (8 + exr_payload_size pt chans width)"

definition exr_file ::
  "int32 list \<Rightarrow> EXRChannelType \<Rightarrow> string list \<Rightarrow> int \<Rightarrow> int \<Rightarrow> byte list" where
  "exr_file pixels pt chans width height =
     le_bytes 4 EXR_MAGIC @ le_bytes 4 2 @ buildHeader width height chans pt @
     concat (map (\<lambda>i. exr_offset_entry (exr_record_position pt chans width height (int i)))
                 [0..<nat height]) @
     concat (map (\<lambda>i. exr_scanline_record pixels pt chans width (int i)) [0..<nat height])"

definition exr_pixelType :: "WriteEXROptions \<Rightarrow> EXRChannelType" where
  "exr_pixelType options = (case pixelType options of None \<Rightarrow> Half | Some t \<Rightarrow> t)"

definition exr_channels :: "WriteEXROptions \<Rightarrow> string list" where
  "exr_channels options =
     (case channels options of None \<Rightarrow> [''R'', ''G'', ''B'', ''A''] | Some cs \<Rightarrow> cs)"


definition le_value :: "byte list \<Rightarrow> int" where
  "le_value bs = foldr (\<lambda>b acc. uint b + 256 * acc) bs 0"



section \<open>gpu-readback: readPixelsAsync\<close>

















definition or_default :: "'a option \<Rightarrow> 'a \<Rightarrow> 'a" where
  "or_default v d = (case v of None \<Rightarrow> d | Some a \<Rightarrow> a)"








section \<open>hdr-render-loop: HDRRenderLoop\<close>

text \<open>
  The deck is the renderer; of its props the model keeps \<open>_framebuffer\<close> (a framebuffer,
  \<open>null\<close> or \<open>undefined\<close>; framebuffers are told apart by a number), \<open>onAfterRender\<close> and,
  as \<open>scene\<close>, whatever else the update hook changes. \<open>setProps\<close> assigns the props it is
  given. An \<open>HDRRenderLoop\<close> object is split into its mutable fields (the record
  \<open>HDRRenderLoop\<close>: the deck it drives, \<open>_originalFramebuffer\<close>, \<open>_isRendering\<close>) and its
  read-only ones (\<open>HDRRenderLoopProps\<close>). \<open>calls\<close> is not a field of the source: it
  records, in order, the hook invocations and redraws the loop has made.

  The hooks are the caller's code. A hook is a function of what the source passes to it
  (\<open>onUpdateFrame\<close> gets the deck and returns it changed) and may throw. \<open>redrawAndRead\<close>
  stands for \<open>deck.redraw\<close> followed by \<open>exporter.readPixelsAsync()\<close> in the
  \<open>onAfterRender\<close> callback: the pixels the device delivers for the deck as it is, or the
  error the readback rejects with. The deck is taken to call \<open>onAfterRender\<close> after the
  redraw; a deck that never does leaves the promise of \<open>_renderToHDR\<close> pending, and
  such a run does not return.

  \<open>renderFrame\<close> and the loop body of \<open>renderSequence\<close> are the same statements in the
  source; \<open>frame_steps\<close> is that sequence: the optional hooks (\<open>callFrameStart\<close>,
  \<open>callUpdateFrame\<close>, \<open>callFrameComplete\<close>), \<open>_renderToHDR\<close>, and the flip and encoding of
  the pixels (\<open>encodeFrame\<close>). \<open>renderSequence\<close> is an async generator: the
  model runs it with a consumer that, after each frame it is handed, either asks for the
  next one or ends the iteration (\<open>return()\<close>, as \<open>break\<close> in a \<open>for await\<close> does), and
  returns the final state, the frames yielded and how the run ended.
\<close>

datatype fb_ref = FbUndefined | FbNull | Fb nat

datatype after_render = NoCallback | UserCallback nat | ReadbackCallback

record 'sc Deck =
  props_framebuffer :: fb_ref
  props_onAfterRender :: after_render
  scene :: 'sc

record HDRExporter =
  exporter_width :: int
  exporter_height :: int
  exporter_framebuffer :: nat

datatype loop_call =
    CallFrameStart int
  | CallUpdateFrame int
  | CallRedraw
  | CallFrameComplete int

record 'sc HDRRenderLoop =
  deck :: "'sc Deck"
  originalFramebuffer :: fb_ref
  isRendering :: bool
  calls :: "loop_call list"

record 'sc HDRRenderLoopProps =
  exporter :: HDRExporter
  exrOptions :: WriteEXROptions
  onFrameStart :: "(int \<Rightarrow> js_error option) option"
  onFrameComplete :: "(int \<Rightarrow> int32 list \<Rightarrow> js_error option) option"
  onUpdateFrame :: "(int \<Rightarrow> 'sc Deck \<Rightarrow> 'sc Deck \<times> js_error option) option"
  redrawAndRead :: "'sc Deck \<Rightarrow> js_error + int32 list"

record FrameResult =
  fr_frame :: int
  fr_exrBuffer :: "byte list"
  fr_pixels :: "int32 list"

record RenderSequenceOptions =
  startFrame :: "int option"
  endFrame :: int

datatype sequence_end = Completed | Cancelled | Threw js_error

definition flipPixels :: "'a::zero list \<Rightarrow> int \<Rightarrow> int \<Rightarrow> int \<Rightarrow> js_error + 'a list" where
  "flipPixels buffer w h c =
     (case flipPixelsVertically [buffer] 0 w h c of
        Inl e \<Rightarrow> Inl e
      | Inr (st, flipped) \<Rightarrow> Inr (st ! flipped))"

definition beginExport :: "'sc HDRRenderLoopProps \<Rightarrow> 'sc HDRRenderLoop \<Rightarrow> 'sc HDRRenderLoop" where
  "beginExport p s =
     (let s1 = s\<lparr>originalFramebuffer := props_framebuffer (deck s)\<rparr>
      in s1\<lparr>deck := (deck s1)\<lparr>props_framebuffer := Fb (exporter_framebuffer (exporter p))\<rparr>\<rparr>)"

definition endExport :: "'sc HDRRenderLoop \<Rightarrow> 'sc HDRRenderLoop" where
  "endExport s =
     (let s1 = s\<lparr>deck := (deck s)\<lparr>props_framebuffer := originalFramebuffer s\<rparr>\<rparr>
      in s1\<lparr>originalFramebuffer := FbNull\<rparr>)"

definition renderToHDR ::
  "'sc HDRRenderLoopProps \<Rightarrow> 'sc HDRRenderLoop \<Rightarrow> 'sc HDRRenderLoop \<times> (js_error + int32 list)" where
  "renderToHDR p s =
     (let originalOnAfterRender = props_onAfterRender (deck s);
          d1 = (deck s)\<lparr>props_framebuffer := Fb (exporter_framebuffer (exporter p)),
                         props_onAfterRender := ReadbackCallback\<rparr>;
          s1 = s\<lparr>deck := d1, calls := calls s @ [CallRedraw]\<rparr>
      in case redrawAndRead p d1 of
           Inl e \<Rightarrow> (s1, Inl e)
         | Inr px \<Rightarrow>
             (s1\<lparr>deck := d1\<lparr>props_onAfterRender := originalOnAfterRender\<rparr>\<rparr>, Inr px))"

definition callFrameStart ::
  "'sc HDRRenderLoopProps \<Rightarrow> 'sc HDRRenderLoop \<Rightarrow> int \<Rightarrow> 'sc HDRRenderLoop \<times> js_error option" where
  "callFrameStart p s frame =
     (case onFrameStart p of
        None \<Rightarrow> (s, None)
      | Some f \<Rightarrow> (s\<lparr>calls := calls s @ [CallFrameStart frame]\<rparr>, f frame))"

definition callUpdateFrame ::
  "'sc HDRRenderLoopProps \<Rightarrow> 'sc HDRRenderLoop \<Rightarrow> int \<Rightarrow> 'sc HDRRenderLoop \<times> js_error option" where
  "callUpdateFrame p s frame =
     (case onUpdateFrame p of
        None \<Rightarrow> (s, None)
      | Some f \<Rightarrow>
          (s\<lparr>deck := fst (f frame (deck s)), calls := calls s @ [CallUpdateFrame frame]\<rparr>,
           snd (f frame (deck s))))"

definition callFrameComplete ::
  "'sc HDRRenderLoopProps \<Rightarrow> 'sc HDRRenderLoop \<Rightarrow> int \<Rightarrow> int32 list \<Rightarrow>
   'sc HDRRenderLoop \<times> js_error option" where
  "callFrameComplete p s frame px =
     (case onFrameComplete p of
        None \<Rightarrow> (s, None)
      | Some f \<Rightarrow> (s\<lparr>calls := calls s @ [CallFrameComplete frame]\<rparr>, f frame px))"

definition encodeFrame :: "'sc HDRRenderLoopProps \<Rightarrow> int \<Rightarrow> int32 list \<Rightarrow> js_error + FrameResult" where
  "encodeFrame p frame px =
     (case flipPixels px (exporter_width (exporter p)) (exporter_height (exporter p)) 4 of
        Inl e \<Rightarrow> Inl e
      | Inr flippedPixels \<Rightarrow>
         (case writeEXR flippedPixels (exporter_width (exporter p))
                 (exporter_height (exporter p)) (exrOptions p) of
            Inl e \<Rightarrow> Inl e
          | Inr exrBuffer \<Rightarrow>
              Inr \<lparr>fr_frame = frame, fr_exrBuffer = exrBuffer, fr_pixels = flippedPixels\<rparr>))"

definition frame_steps ::
  "'sc HDRRenderLoopProps \<Rightarrow> 'sc HDRRenderLoop \<Rightarrow> int \<Rightarrow>
   'sc HDRRenderLoop \<times> (js_error + FrameResult)" where
  "frame_steps p s frame =
     (case callFrameStart p s frame of
        (s1, Some e) \<Rightarrow> (s1, Inl e)
      | (s1, None) \<Rightarrow>
         (case callUpdateFrame p s1 frame of
            (s2, Some e) \<Rightarrow> (s2, Inl e)
          | (s2, None) \<Rightarrow>
             (case renderToHDR p s2 of
                (s3, Inl e) \<Rightarrow> (s3, Inl e)
              | (s3, Inr px) \<Rightarrow>
                 (case callFrameComplete p s3 frame px of
                    (s4, Some e) \<Rightarrow> (s4, Inl e)
                  | (s4, None) \<Rightarrow> (s4, encodeFrame p frame px)))))"


function sequence_loop ::
  "'sc HDRRenderLoopProps \<Rightarrow> (FrameResult \<Rightarrow> bool) \<Rightarrow> 'sc HDRRenderLoop \<Rightarrow> int \<Rightarrow> int \<Rightarrow>
   'sc HDRRenderLoop \<times> FrameResult list \<times> sequence_end" where
  "sequence_loop p consumer s frame endF =
     (if frame \<le> endF then
        (case frame_steps p s frame of
           (s1, Inl e) \<Rightarrow> (s1, [], Threw e)
         | (s1, Inr r) \<Rightarrow>
             (if consumer r then
                (case sequence_loop p consumer s1 (frame + 1) endF of
                   (s2, rs, fin) \<Rightarrow> (s2, r # rs, fin))
              else (s1, [r], Cancelled)))
      else (s, [], Completed))"
  by pat_completeness auto
termination
  by (relation "measure (\<lambda>(p, consumer, s, frame, endF). nat (endF + 1 - frame))") auto

declare sequence_loop.simps [simp del]

definition renderSequence_try ::
  "'sc HDRRenderLoopProps \<Rightarrow> (FrameResult \<Rightarrow> bool) \<Rightarrow> 'sc HDRRenderLoop \<Rightarrow> int \<Rightarrow> int \<Rightarrow>
   'sc HDRRenderLoop \<times> FrameResult list \<times> sequence_end" where
  "renderSequence_try p consumer s startF endF =
     sequence_loop p consumer (beginExport p s) startF endF"

definition renderSequence_finally :: "'sc HDRRenderLoop \<Rightarrow> 'sc HDRRenderLoop" where
  "renderSequence_finally s = (endExport s)\<lparr>isRendering := False\<rparr>"

definition renderSequence ::
  "'sc HDRRenderLoopProps \<Rightarrow> (FrameResult \<Rightarrow> bool) \<Rightarrow> 'sc HDRRenderLoop \<Rightarrow>
   RenderSequenceOptions \<Rightarrow> 'sc HDRRenderLoop \<times> FrameResult list \<times> sequence_end" where
  "renderSequence p consumer s options =
     (let startF = or_default (startFrame options) 0;
          endF = endFrame options
      in if isRendering s then
           (s, [], Threw (Error ''HDRRenderLoop: A render sequence is already in progress''))
         else
           (case renderSequence_try p consumer (s\<lparr>isRendering := True\<rparr>) startF endF of
              (s1, rs, fin) \<Rightarrow> (renderSequence_finally s1, rs, fin)))"

definition capturePixels ::
  "'sc HDRRenderLoopProps \<Rightarrow> 'sc HDRRenderLoop \<Rightarrow> 'sc HDRRenderLoop \<times> (js_error + int32 list)" where
  "capturePixels p s =
     (case renderToHDR p s of
        (s1, Inl e) \<Rightarrow> (s1, Inl e)
      | (s1, Inr px) \<Rightarrow>
          (s1, flipPixels px (exporter_width (exporter p)) (exporter_height (exporter p)) 4))"


text \<open>
  Two states of a loop object belong to the same run when the saved framebuffer and the
  running flag agree. The example objects below are used to run the loop on concrete
  inputs: a 1 x 1 exporter whose framebuffer is number 7, a deck that renders to
  framebuffer 1, and an update hook that throws at frame 1.
\<close>

definition same_run :: "'sc HDRRenderLoop \<Rightarrow> 'sc HDRRenderLoop \<Rightarrow> bool" where
  "same_run s s' \<longleftrightarrow>
     originalFramebuffer s' = originalFramebuffer s \<and> isRendering s' = isRendering s"


definition example_deck :: "unit Deck" where
  "example_deck = \<lparr>props_framebuffer = Fb 1, props_onAfterRender = UserCallback 0, scene = ()\<rparr>"

definition example_loop :: "unit HDRRenderLoop" where
  "example_loop = \<lparr>deck = example_deck, originalFramebuffer = FbNull, isRendering = False,
                    calls = []\<rparr>"

definition example_props :: "unit HDRRenderLoopProps" where
  "example_props =
     \<lparr>exporter = \<lparr>exporter_width = 1, exporter_height = 1, exporter_framebuffer = 7\<rparr>,
      exrOptions = \<lparr>pixelType = None, channels = None\<rparr>,
      onFrameStart = None,
      onFrameComplete = None,
      onUpdateFrame = Some (\<lambda>frame d. (d, if frame = 1 then Some (Error ''boom'') else None)),
      redrawAndRead = (\<lambda>d. Inr [0x3F800000, 0, 0, 0x3F800000])\<rparr>"
section \<open>Bit-level facts about the 32-bit operators\<close>














section \<open>floatToHalf: the special cases\<close>







section \<open>flipPixelsVertically: the loop reverses the rows\<close>

lemma subarray_in_range:
  "a + n \<le> length xs \<Longrightarrow> subarray xs (int a) (int a + int n) = take n (drop a xs)"
  by (simp add: subarray_def Let_def min_def max_def)

lemma typed_set_in_range:
  "d + length r \<le> length fl \<Longrightarrow>
   typed_set fl r (int d) = Inr (take d fl @ r @ drop (d + length r) fl)"
  by (simp add: typed_set_def)

lemma row_update_same:
  assumes "length r = n" "d * n + n \<le> length fl"
  shows "row_of n d (take (d * n) fl @ r @ drop (d * n + n) fl) = r"
  using assms by (simp add: row_of_def)

lemma row_update_below:
  assumes "length r = n" "d * n + n \<le> length fl" "j < d"
  shows "row_of n j (take (d * n) fl @ r @ drop (d * n + n) fl) = row_of n j fl"
proof -
  have "Suc j * n \<le> d * n" using assms(3) by (intro mult_le_mono1) simp
  then have le: "j * n + n \<le> d * n" by simp
  then have "min n (d * n - j * n) = n" by simp
  then show ?thesis using assms(2) le
    by (simp add: row_of_def drop_take)
qed

lemma row_update_above:
  assumes "length r = n" "d * n + n \<le> length fl" "d < j"
  shows "row_of n j (take (d * n) fl @ r @ drop (d * n + n) fl) = row_of n j fl"
proof -
  have "Suc d * n \<le> j * n" using assms(3) by (intro mult_le_mono1) simp
  then have le: "d * n + n \<le> j * n" by simp
  moreover from assms(3) have "d * n \<le> j * n" by simp
  ultimately show ?thesis using assms(1,2)
    by (simp add: row_of_def)
qed


lemma flip_loop_done: "\<not> y < height \<Longrightarrow> flip_loop st data flipped rowSize height y = Inr st"
  by (subst flip_loop.simps) simp

lemma flip_loop_step:
  "y < height \<Longrightarrow>
   typed_set (st ! flipped) (subarray (st ! data) (y * rowSize) (y * rowSize + rowSize))
      ((height - 1 - y) * rowSize) = Inr buf \<Longrightarrow>
   flip_loop st data flipped rowSize height y =
   flip_loop (st[flipped := buf]) data flipped rowSize height (y + 1)"
  by (subst flip_loop.simps) (simp add: Let_def)

lemma flip_loop_rows:
  fixes st :: "'a store"
  assumes "data < length st" "flipped < length st" "data \<noteq> flipped"
    and "length (st ! data) = H * N" "length (st ! flipped) = H * N" "Y \<le> H"
  shows "\<exists>st'. flip_loop st data flipped (int N) (int H) (int Y) = Inr st' \<and>
           length st' = length st \<and>
           (\<forall>b<length st. b \<noteq> flipped \<longrightarrow> st' ! b = st ! b) \<and>
           length (st' ! flipped) = H * N \<and>
           (\<forall>j. j < H - Y \<longrightarrow> row_of N j (st' ! flipped) = row_of N (H - 1 - j) (st ! data)) \<and>
           (\<forall>j. H - Y \<le> j \<longrightarrow> row_of N j (st' ! flipped) = row_of N j (st ! flipped))"
  using assms
proof (induction "H - Y" arbitrary: Y st)
  case 0
  then have "Y = H" by simp
  then show ?case using 0 by (simp add: flip_loop_done)
next
  case (Suc k)
  then have YH: "Y < H" by simp
  let ?d = "H - 1 - Y"
  let ?r = "take N (drop (Y * N) (st ! data))"
  let ?fl = "st ! flipped"
  let ?buf = "take (?d * N) ?fl @ ?r @ drop (?d * N + N) ?fl"
  let ?st1 = "st[flipped := ?buf]"
  have "Suc Y * N \<le> H * N" using YH by (intro mult_le_mono1) simp
  then have srcle: "Y * N + N \<le> H * N" by simp
  have "Suc ?d * N \<le> H * N" using YH by (intro mult_le_mono1) simp
  then have dstle: "?d * N + N \<le> H * N" by simp
  have lr: "length ?r = N" using srcle Suc.prems(4) by simp
  have sub: "subarray (st ! data) (int Y * int N) (int Y * int N + int N) = ?r"
    using subarray_in_range [of "Y * N" N "st ! data"] srcle Suc.prems(4) by simp
  have "int ?d = int H - 1 - int Y" using YH by linarith
  then have dsti: "(int H - 1 - int Y) * int N = int (?d * N)"
    by simp
  have set: "typed_set ?fl ?r (int (?d * N)) = Inr ?buf"
    using typed_set_in_range [of "?d * N" ?r ?fl] dstle lr Suc.prems(5) by simp
  have lt: "int Y < int H" using YH by simp
  have set': "typed_set ?fl (subarray (st ! data) (int Y * int N) (int Y * int N + int N))
      ((int H - 1 - int Y) * int N) = Inr ?buf"
    unfolding sub dsti by (rule set)
  have suc: "int Y + 1 = int (Suc Y)" by simp
  have step: "flip_loop st data flipped (int N) (int H) (int Y) =
      flip_loop ?st1 data flipped (int N) (int H) (int (Suc Y))"
    using flip_loop_step [OF lt set'] unfolding suc .
  have lbuf: "length ?buf = H * N" using dstle lr Suc.prems(5) by simp
  have k: "k = H - Suc Y" using Suc.hyps(2) by simp
  have pre: "data < length ?st1" "flipped < length ?st1" "data \<noteq> flipped"
     "length (?st1 ! data) = H * N" "length (?st1 ! flipped) = H * N" "Suc Y \<le> H"
    using Suc.prems YH lbuf by simp_all
  from Suc.hyps(1) [OF k pre] obtain st' where
      run: "flip_loop ?st1 data flipped (int N) (int H) (int (Suc Y)) = Inr st'"
    and len: "length st' = length ?st1"
    and others: "\<forall>b<length ?st1. b \<noteq> flipped \<longrightarrow> st' ! b = ?st1 ! b"
    and lfl: "length (st' ! flipped) = H * N"
    and new: "\<forall>j. j < H - Suc Y \<longrightarrow> row_of N j (st' ! flipped) = row_of N (H - 1 - j) (?st1 ! data)"
    and old: "\<forall>j. H - Suc Y \<le> j \<longrightarrow> row_of N j (st' ! flipped) = row_of N j (?st1 ! flipped)"
    by blast
  have st1fl: "?st1 ! flipped = ?buf" using Suc.prems(2) by simp
  have st1data: "?st1 ! data = st ! data" using Suc.prems(3) by simp
  have dlen: "?d * N + N \<le> length ?fl" using dstle Suc.prems(5) by simp
  have rows_new: "row_of N j (st' ! flipped) = row_of N (H - 1 - j) (st ! data)" if "j < H - Y" for j
  proof (cases "j < H - Suc Y")
    case True
    then show ?thesis using new st1data by simp
  next
    case False
    then have j: "j = ?d" using that by simp
    have "row_of N j (st' ! flipped) = row_of N ?d ?buf" using old j st1fl by simp
    also have "\<dots> = ?r" by (rule row_update_same [OF lr dlen])
    also have "\<dots> = row_of N (H - 1 - j) (st ! data)" using j YH by (simp add: row_of_def)
    finally show ?thesis .
  qed
  have rows_old: "row_of N j (st' ! flipped) = row_of N j (st ! flipped)" if "H - Y \<le> j" for j
  proof -
    have "?d < j" using that YH by simp
    then have "row_of N j ?buf = row_of N j ?fl" by (rule row_update_above [OF lr dlen])
    moreover have "H - Suc Y \<le> j" using that by simp
    ultimately show ?thesis using old st1fl by simp
  qed
  show ?case
    using step run len others lfl rows_new rows_old by simp
qed


lemma rows_eq:
  assumes "length xs = H * N" "length ys = H * N"
    and "\<And>j. j < H \<Longrightarrow> row_of N j xs = row_of N j ys"
  shows "xs = ys"
proof (rule nth_equalityI)
  show "length xs = length ys" using assms by simp
next
  fix k assume k: "k < length xs"
  then have N: "0 < N" using assms(1) by (cases N) auto
  let ?j = "k div N" and ?t = "k mod N"
  have j: "?j < H" using k assms(1) N by (simp add: less_mult_imp_div_less)
  have t: "?t < N" using N by simp
  have kk: "?j * N + ?t = k" by simp
  have le: "?j * N \<le> k" by simp
  have nth_row: "row_of N ?j zs ! ?t = zs ! k" if "length zs = H * N" for zs :: "'a list"
  proof -
    have "row_of N ?j zs ! ?t = drop (?j * N) zs ! ?t" using t by (simp add: row_of_def)
    also have "\<dots> = zs ! (?j * N + ?t)"
    proof (rule nth_drop)
      have "?j * N \<le> k" by simp
      then show "?j * N \<le> length zs" using k that assms(1) by linarith
    qed
    finally show ?thesis by (simp only: kk)
  qed
  have "xs ! k = row_of N ?j xs ! ?t" using nth_row [OF assms(1)] by simp
  also have "\<dots> = row_of N ?j ys ! ?t" using assms(3) [OF j] by simp
  also have "\<dots> = ys ! k" by (rule nth_row [OF assms(2)])
  finally show "xs ! k = ys ! k" .
qed

lemma flipPixelsVertically_rows:
  fixes st :: "'a::zero store"
  assumes "data < length st" "length (st ! data) = H * N"
    and "width * nchannels = int N" "height = int H"
  shows "\<exists>st'. flipPixelsVertically st data width height nchannels = Inr (st', length st) \<and>
           length st' = Suc (length st) \<and>
           (\<forall>b<length st. st' ! b = st ! b) \<and>
           length (st' ! length st) = H * N \<and>
           (\<forall>j<H. row_of N j (st' ! length st) = row_of N (H - 1 - j) (st ! data))"
proof -
  let ?st1 = "st @ [replicate (length (st ! data)) 0]"
  have pre: "data < length ?st1" "length st < length ?st1" "data \<noteq> length st"
    "length (?st1 ! data) = H * N" "length (?st1 ! length st) = H * N" "0 \<le> H"
    using assms(1,2) by (simp_all add: nth_append)
  from flip_loop_rows [OF pre] obtain st' where
      run: "flip_loop ?st1 data (length st) (int N) (int H) (int 0) = Inr st'"
    and len: "length st' = length ?st1"
    and others: "\<forall>b<length ?st1. b \<noteq> length st \<longrightarrow> st' ! b = ?st1 ! b"
    and lfl: "length (st' ! length st) = H * N"
    and new: "\<forall>j. j < H - 0 \<longrightarrow> row_of N j (st' ! length st) = row_of N (H - 1 - j) (?st1 ! data)"
    by blast
  have "flipPixelsVertically st data width height nchannels = Inr (st', length st)"
    using run assms(3,4) by (simp add: flipPixelsVertically_def alloc_def)
  moreover have "\<forall>b<length st. st' ! b = st ! b"
    using others by (simp add: nth_append)
  moreover have "\<forall>j<H. row_of N j (st' ! length st) = row_of N (H - 1 - j) (st ! data)"
    using new assms(1) by (simp add: nth_append)
  ultimately show ?thesis using len lfl by simp
qed


section \<open>writeEXR produces the scanline layout\<close>

lemma length_le_bytes [simp]: "length (le_bytes n v) = n"
  by (induction n arbitrary: v) auto

lemma view_set_append:
  "length bs \<le> length rest \<Longrightarrow>
   view_set (pre @ rest) (int (length pre)) bs = Inr (pre @ bs @ drop (length bs) rest)"
  by (simp add: view_set_def)

lemma view_set_append':
  "length bs \<le> length rest \<Longrightarrow> offset = int (length pre) \<Longrightarrow>
   view_set (pre @ rest) offset bs = Inr ((pre @ bs) @ drop (length bs) rest)"
  by (simp add: view_set_append)

lemma write_offset_table_done:
  "\<not> y < height \<Longrightarrow>
   write_offset_table buf offset so shs sds height y = Inr (buf, offset)"
  by (subst write_offset_table.simps) simp

lemma write_offset_table_step:
  "y < height \<Longrightarrow> setUint32 buf offset so = Inr buf1 \<Longrightarrow>
   setUint32 buf1 (offset + 4) 0 = Inr buf2 \<Longrightarrow>
   write_offset_table buf offset so shs sds height y =
   write_offset_table buf2 (offset + 8) (so + (shs + sds)) shs sds height (y + 1)"
  by (subst write_offset_table.simps) simp

lemma write_offset_table_layout:
  assumes "8 * (H - Y) \<le> length rest" "Y \<le> H"
  shows "write_offset_table (pre @ rest) (int (length pre)) so shs sds (int H) (int Y) =
     Inr (pre @ concat (map (\<lambda>k. exr_offset_entry (so + int k * (shs + sds))) [0..<H - Y]) @
            drop (8 * (H - Y)) rest,
          int (length pre) + 8 * int (H - Y))"
  using assms
proof (induction "H - Y" arbitrary: Y pre rest so)
  case 0
  then show ?case by (simp add: write_offset_table_done)
next
  case (Suc n)
  then have YH: "Y < H" and n: "n = H - Suc Y" by simp_all
  have len: "8 \<le> length rest" using Suc.prems(1) Suc.hyps(2) by simp
  let ?e1 = "le_bytes 4 so" and ?e2 = "le_bytes 4 0"
  have s1: "setUint32 (pre @ rest) (int (length pre)) so = Inr ((pre @ ?e1) @ drop 4 rest)"
    unfolding setUint32_def using view_set_append' [of ?e1 rest _ pre] len by simp
  have s2: "setUint32 ((pre @ ?e1) @ drop 4 rest) (int (length pre) + 4) 0 =
      Inr ((pre @ ?e1 @ ?e2) @ drop 8 rest)"
    unfolding setUint32_def
    using view_set_append' [of ?e2 "drop 4 rest" "int (length pre) + 4" "pre @ ?e1"] len
    by simp
  have lt: "int Y < int H" using YH by simp
  have suc: "int Y + 1 = int (Suc Y)" by simp
  have step: "write_offset_table (pre @ rest) (int (length pre)) so shs sds (int H) (int Y) =
      write_offset_table ((pre @ ?e1 @ ?e2) @ drop 8 rest) (int (length pre) + 8)
        (so + (shs + sds)) shs sds (int H) (int (Suc Y))"
    using write_offset_table_step [OF lt s1 s2] unfolding suc .
  have off: "int (length pre) + 8 = int (length (pre @ ?e1 @ ?e2))" by simp
  have room: "8 * (H - Suc Y) \<le> length (drop 8 rest)"
    using Suc.prems(1) YH by simp
  have SY: "Suc Y \<le> H" using YH by simp
  have ih: "write_offset_table ((pre @ ?e1 @ ?e2) @ drop 8 rest)
        (int (length (pre @ ?e1 @ ?e2))) (so + (shs + sds)) shs sds (int H) (int (Suc Y)) =
     Inr ((pre @ ?e1 @ ?e2) @
            concat (map (\<lambda>k. exr_offset_entry (so + (shs + sds) + int k * (shs + sds)))
                      [0..<H - Suc Y]) @
            drop (8 * (H - Suc Y)) (drop 8 rest),
          int (length (pre @ ?e1 @ ?e2)) + 8 * int (H - Suc Y))"
    by (rule Suc.hyps(1) [OF n room SY])
  have split: "[0..<H - Y] = 0 # map Suc [0..<H - Suc Y]"
    using YH by (simp add: upt_conv_Cons map_Suc_upt Suc_diff_Suc del: upt_Suc)
  have entries: "concat (map (\<lambda>k. exr_offset_entry (so + int k * (shs + sds))) [0..<H - Y]) =
      (?e1 @ ?e2) @
      concat (map (\<lambda>k. exr_offset_entry (so + (shs + sds) + int k * (shs + sds)))
                [0..<H - Suc Y])"
    unfolding split by (simp add: exr_offset_entry_def comp_def algebra_simps)
  have HY: "H - Y = Suc (H - Suc Y)" using YH by simp
  have dr: "drop (8 * (H - Suc Y)) (drop 8 rest) = drop (8 * (H - Y)) rest"
    unfolding HY by (simp add: add.commute)
  have cnt: "int (length (pre @ ?e1 @ ?e2)) + 8 * int (H - Suc Y) =
      int (length pre) + 8 * int (H - Y)"
    unfolding HY by simp
  show ?case
    unfolding step off ih entries dr cnt by simp
qed


lemma length_exr_sample [simp]: "length (exr_sample pt v) = nat (exr_pixel_size pt)"
  by (simp add: exr_sample_def exr_pixel_size_def)

lemma write_samples_done:
  "\<not> x < width \<Longrightarrow> write_samples buf offset pixels pt width y ci x = Inr (buf, offset)"
  by (subst write_samples.simps) simp

lemma write_samples_step:
  assumes "x < width"
    and "view_set buf offset (exr_sample pt (readFloat32 pixels ((y * width + x) * 4 + ci)))
          = Inr buf1"
  shows "write_samples buf offset pixels pt width y ci x =
     write_samples buf1 (offset + exr_pixel_size pt) pixels pt width y ci (x + 1)"
  using assms
  by (subst write_samples.simps)
     (auto simp add: Let_def exr_sample_def exr_pixel_size_def setUint16_def setFloat32_def)

lemma write_samples_layout:
  assumes "nat (exr_pixel_size pt) * (W - X) \<le> length rest" "X \<le> W"
  shows "write_samples (pre @ rest) (int (length pre)) pixels pt (int W) y ci (int X) =
     Inr (pre @ concat (map (\<lambda>x. exr_sample pt
                              (readFloat32 pixels ((y * int W + int x) * 4 + ci))) [X..<W]) @
            drop (nat (exr_pixel_size pt) * (W - X)) rest,
          int (length pre) + int (nat (exr_pixel_size pt) * (W - X)))"
  using assms
proof (induction "W - X" arbitrary: X pre rest)
  case 0
  then show ?case by (simp add: write_samples_done)
next
  case (Suc n)
  then have XW: "X < W" and n: "n = W - Suc X" by simp_all
  let ?ps = "nat (exr_pixel_size pt)"
  let ?s = "exr_sample pt (readFloat32 pixels ((y * int W + int X) * 4 + ci))"
  have WX: "W - X = Suc (W - Suc X)" using XW by simp
  have len: "?ps \<le> length rest" using Suc.prems(1) unfolding WX by simp
  have s1: "view_set (pre @ rest) (int (length pre)) ?s = Inr ((pre @ ?s) @ drop ?ps rest)"
    using view_set_append' [of ?s rest _ pre] len by simp
  have lt: "int X < int W" using XW by simp
  have suc: "int X + 1 = int (Suc X)" by simp
  have psp: "int ?ps = exr_pixel_size pt" by (simp add: exr_pixel_size_def)
  have off: "int (length pre) + exr_pixel_size pt = int (length (pre @ ?s))"
    using psp by simp
  have step: "write_samples (pre @ rest) (int (length pre)) pixels pt (int W) y ci (int X) =
      write_samples ((pre @ ?s) @ drop ?ps rest) (int (length (pre @ ?s))) pixels pt (int W) y ci
        (int (Suc X))"
    using write_samples_step [OF lt s1] unfolding suc off .
  have room: "?ps * (W - Suc X) \<le> length (drop ?ps rest)"
    using Suc.prems(1) unfolding WX by simp
  have SX: "Suc X \<le> W" using XW by simp
  note ih = Suc.hyps(1) [OF n room SX, of "pre @ ?s"]
  have split: "[X..<W] = X # [Suc X..<W]" using XW by (simp add: upt_conv_Cons)
  have dr: "drop (?ps * (W - Suc X)) (drop ?ps rest) = drop (?ps * (W - X)) rest"
    unfolding WX by (simp add: add.commute)
  have cnt: "int (length (pre @ ?s)) + int (?ps * (W - Suc X)) =
      int (length pre) + int (?ps * (W - X))"
    unfolding WX by simp
  show ?case
    unfolding step ih split dr cnt by simp
qed

lemma length_exr_channel_row [simp]:
  "length (exr_channel_row pixels pt width y channel) = nat (exr_pixel_size pt) * nat width"
  by (simp add: exr_channel_row_def length_concat comp_def sum_list_triv)

lemma write_samples_row:
  assumes "nat (exr_pixel_size pt) * W \<le> length rest"
  shows "write_samples (pre @ rest) (int (length pre)) pixels pt (int W) y
           (getChannelIndex channel) 0 =
     Inr ((pre @ exr_channel_row pixels pt (int W) y channel) @
            drop (nat (exr_pixel_size pt) * W) rest,
          int (length (pre @ exr_channel_row pixels pt (int W) y channel)))"
proof -
  let ?row = "exr_channel_row pixels pt (int W) y channel"
  let ?n = "nat (exr_pixel_size pt) * W"
  have row: "concat (map (\<lambda>x. exr_sample pt
       (readFloat32 pixels ((y * int W + int x) * 4 + getChannelIndex channel))) [0..<W]) = ?row"
    by (simp add: exr_channel_row_def)
  have l: "length ?row = ?n" by simp
  have "write_samples (pre @ rest) (int (length pre)) pixels pt (int W) y
           (getChannelIndex channel) (int 0) =
     Inr (pre @ ?row @ drop (nat (exr_pixel_size pt) * (W - 0)) rest,
          int (length pre) + int (nat (exr_pixel_size pt) * (W - 0)))"
    using write_samples_layout [of pt W 0 rest pre pixels y "getChannelIndex channel"] assms
    unfolding row by simp
  then show ?thesis unfolding length_append l by simp
qed

lemma write_channels_layout:
  assumes "length cs * (nat (exr_pixel_size pt) * W) \<le> length rest"
  shows "write_channels (pre @ rest) (int (length pre)) pixels pt (int W) y cs =
     Inr (pre @ concat (map (exr_channel_row pixels pt (int W) y) cs) @
            drop (length cs * (nat (exr_pixel_size pt) * W)) rest,
          int (length pre) + int (length cs * (nat (exr_pixel_size pt) * W)))"
  using assms
proof (induction cs arbitrary: pre rest)
  case Nil
  then show ?case by simp
next
  case (Cons c cs)
  let ?row = "exr_channel_row pixels pt (int W) y c"
  let ?n = "nat (exr_pixel_size pt) * W"
  have len: "?n \<le> length rest" using Cons.prems by simp
  have room: "length cs * ?n \<le> length (drop ?n rest)" using Cons.prems by simp
  note ih = Cons.IH [OF room, of "pre @ ?row"]
  have dr: "drop (length cs * ?n) (drop ?n rest) = drop (length (c # cs) * ?n) rest"
    by (simp add: add.commute)
  show ?case
    using write_samples_row [OF len, of pre pixels y c] ih dr
    by (simp add: algebra_simps)
qed


lemma length_exr_payload [simp]:
  "length (exr_payload pixels pt chans width y) =
   length chans * (nat (exr_pixel_size pt) * nat width)"
  by (simp add: exr_payload_def length_concat comp_def sum_list_triv)

lemma length_exr_scanline_record [simp]:
  "length (exr_scanline_record pixels pt chans width y) =
   8 + length chans * (nat (exr_pixel_size pt) * nat width)"
  by (simp add: exr_scanline_record_def)

lemma write_scanlines_done:
  "\<not> y < height \<Longrightarrow>
   write_scanlines buf offset pixels pt chans sds width height y = Inr (buf, offset)"
  by (subst write_scanlines.simps) simp

lemma write_scanlines_step:
  assumes "y < height" "setInt32 buf offset y = Inr buf1"
    and "setUint32 buf1 (offset + 4) sds = Inr buf2"
    and "write_channels buf2 (offset + 4 + 4) pixels pt width y (sort chans) = Inr (buf3, offset3)"
  shows "write_scanlines buf offset pixels pt chans sds width height y =
     write_scanlines buf3 offset3 pixels pt chans sds width height (y + 1)"
  using assms by (subst write_scanlines.simps) (simp add: Let_def)

lemma write_scanlines_layout:
  assumes "(8 + length chans * (nat (exr_pixel_size pt) * W)) * (H - Y) \<le> length rest"
    and "Y \<le> H" "sds = exr_payload_size pt chans (int W)"
  shows "write_scanlines (pre @ rest) (int (length pre)) pixels pt chans sds (int W) (int H) (int Y)
     = Inr (pre @ concat (map (\<lambda>i. exr_scanline_record pixels pt chans (int W) (int i)) [Y..<H]) @
              drop ((8 + length chans * (nat (exr_pixel_size pt) * W)) * (H - Y)) rest,
            int (length pre) + int ((8 + length chans * (nat (exr_pixel_size pt) * W)) * (H - Y)))"
  using assms(1,2)
proof (induction "H - Y" arbitrary: Y pre rest)
  case 0
  then show ?case by (simp add: write_scanlines_done)
next
  case (Suc n)
  then have YH: "Y < H" and n: "n = H - Suc Y" by simp_all
  let ?p = "length chans * (nat (exr_pixel_size pt) * W)"
  let ?R = "8 + ?p"
  let ?e1 = "le_bytes 4 (int Y)" and ?e2 = "le_bytes 4 sds"
  let ?pay = "exr_payload pixels pt chans (int W) (int Y)"
  let ?rec = "exr_scanline_record pixels pt chans (int W) (int Y)"
  have HY: "H - Y = Suc (H - Suc Y)" using YH by simp
  have len: "?R \<le> length rest" using Suc.prems(1) unfolding HY by simp
  have s1: "setInt32 (pre @ rest) (int (length pre)) (int Y) = Inr ((pre @ ?e1) @ drop 4 rest)"
    unfolding setInt32_def using view_set_append' [of ?e1 rest _ pre] len by simp
  have s2: "setUint32 ((pre @ ?e1) @ drop 4 rest) (int (length pre) + 4) sds =
      Inr ((pre @ ?e1 @ ?e2) @ drop 8 rest)"
    unfolding setUint32_def
    using view_set_append' [of ?e2 "drop 4 rest" "int (length pre) + 4" "pre @ ?e1"] len
    by simp
  have off: "int (length pre) + 4 + 4 = int (length (pre @ ?e1 @ ?e2))" by simp
  have roomc: "length (sort chans) * (nat (exr_pixel_size pt) * W) \<le> length (drop 8 rest)"
    using len by simp
  have s3: "write_channels ((pre @ ?e1 @ ?e2) @ drop 8 rest) (int (length pre) + 4 + 4)
       pixels pt (int W) (int Y) (sort chans) =
     Inr ((pre @ ?rec) @ drop ?R rest, int (length (pre @ ?rec)))"
  proof -
    have pay: "concat (map (exr_channel_row pixels pt (int W) (int Y)) (sort chans)) = ?pay"
      by (simp add: exr_payload_def)
    have rec: "?rec = ?e1 @ ?e2 @ ?pay"
      by (simp add: exr_scanline_record_def assms(3))
    have eq1: "(pre @ ?e1 @ ?e2) @ ?pay @ drop (length (sort chans) * (nat (exr_pixel_size pt) * W))
                 (drop 8 rest) = (pre @ ?rec) @ drop ?R rest"
      by (simp add: rec add.commute)
    have eq2: "int (length (pre @ ?e1 @ ?e2)) +
        int (length (sort chans) * (nat (exr_pixel_size pt) * W)) = int (length (pre @ ?rec))"
      by (simp add: rec)
    show ?thesis
      unfolding off
      using write_channels_layout [OF roomc, of "pre @ ?e1 @ ?e2" pixels "int Y"]
      unfolding pay eq1 eq2 .
  qed
  have lt: "int Y < int H" using YH by simp
  have suc: "int Y + 1 = int (Suc Y)" by simp
  have step: "write_scanlines (pre @ rest) (int (length pre)) pixels pt chans sds (int W) (int H)
        (int Y) =
      write_scanlines ((pre @ ?rec) @ drop ?R rest) (int (length (pre @ ?rec))) pixels pt chans sds
        (int W) (int H) (int (Suc Y))"
    using write_scanlines_step [OF lt s1 s2 s3] unfolding suc .
  have room: "?R * (H - Suc Y) \<le> length (drop ?R rest)"
    using Suc.prems(1) unfolding HY by simp
  have SY: "Suc Y \<le> H" using YH by simp
  note ih = Suc.hyps(1) [OF n room SY, of "pre @ ?rec"]
  have split: "[Y..<H] = Y # [Suc Y..<H]" using YH by (simp add: upt_conv_Cons)
  have dr: "drop (?R * (H - Suc Y)) (drop ?R rest) = drop (?R * (H - Y)) rest"
    unfolding HY by (simp add: add.commute)
  have lrec: "length ?rec = ?R" by simp
  have cnt: "int (length (pre @ ?rec)) + int (?R * (H - Suc Y)) =
      int (length pre) + int (?R * (H - Y))"
    unfolding HY length_append lrec by simp
  show ?case
    unfolding step ih split dr cnt by simp
qed


lemma typed_set_append':
  "length bs \<le> length rest \<Longrightarrow> offset = int (length pre) \<Longrightarrow>
   typed_set (pre @ rest) bs offset = Inr ((pre @ bs) @ drop (length bs) rest)"
  by (simp add: typed_set_def)

lemma exr_version_word: "js_or EXR_VERSION (js_shl EXR_VERSION_FLAGS 8) = 2"
  by (simp add: EXR_VERSION_def EXR_VERSION_FLAGS_def js_or_def js_shl_def toInt32_def)

lemma newArrayBuffer_nat: "newArrayBuffer (int n) = Inr (replicate n 0)"
  by (simp add: newArrayBuffer_def)

lemma writeEXR_layout:
  assumes "0 \<le> width" "0 \<le> height"
  shows "writeEXR pixels width height options =
     Inr (exr_file pixels (exr_pixelType options) (exr_channels options) width height)"
proof -
  let ?pt = "exr_pixelType options" and ?cs = "exr_channels options"
  let ?W = "nat width" and ?H = "nat height"
  let ?hdr = "buildHeader width height ?cs ?pt"
  let ?hs = "length ?hdr"
  let ?p = "length ?cs * (nat (exr_pixel_size ?pt) * ?W)"
  let ?R = "8 + ?p"
  let ?T = "8 + ?hs + 8 * ?H + ?R * ?H"
  let ?sds = "width * int (length ?cs) * (if ?pt = Half then 2 else 4)"
  let ?buf = "replicate ?T (0::byte)"
  have W: "width = int ?W" and H: "height = int ?H" using assms by simp_all
  have ps: "int (nat (exr_pixel_size ?pt)) = exr_pixel_size ?pt"
    by (simp add: exr_pixel_size_def)
  have sds: "?sds = exr_payload_size ?pt ?cs width"
    by (simp add: exr_payload_size_def exr_pixel_size_def)
  have sdsn: "?sds = int ?p"
    unfolding sds exr_payload_size_def using W ps
    by (simp add: mult.commute mult.left_commute)
  have total: "4 + 4 + int ?hs + height * 8 + (8 + ?sds) * height = int ?T"
    unfolding sdsn using H by (simp add: algebra_simps)
  have alloc: "newArrayBuffer (4 + 4 + int ?hs + height * 8 + (8 + ?sds) * height) = Inr ?buf"
    unfolding total by (rule newArrayBuffer_nat)
  let ?m = "le_bytes 4 EXR_MAGIC" and ?v = "le_bytes 4 2"
  have s1: "setUint32 ?buf 0 EXR_MAGIC = Inr (?m @ drop 4 ?buf)"
    unfolding setUint32_def using view_set_append' [of ?m ?buf 0 "[]"] by simp
  have s2: "setUint32 (?m @ drop 4 ?buf) 4 (js_or EXR_VERSION (js_shl EXR_VERSION_FLAGS 8)) =
      Inr ((?m @ ?v) @ drop 8 ?buf)"
    unfolding setUint32_def exr_version_word
    using view_set_append' [of ?v "drop 4 ?buf" 4 ?m] by simp
  have s3: "typed_set ((?m @ ?v) @ drop 8 ?buf) ?hdr 8 = Inr ((?m @ ?v @ ?hdr) @ drop (8 + ?hs) ?buf)"
    using typed_set_append' [of ?hdr "drop 8 ?buf" 8 "?m @ ?v"] by (simp add: add.commute)
  let ?pre = "?m @ ?v @ ?hdr"
  let ?rest = "drop (8 + ?hs) ?buf"
  have lpre: "int (length ?pre) = 8 + int ?hs" by simp
  have room4: "8 * (?H - 0) \<le> length ?rest" by simp
  let ?table = "concat (map (\<lambda>k. exr_offset_entry (8 + int ?hs + height * 8 + int k * (8 + ?sds)))
                  [0..<?H])"
  have s4: "write_offset_table (?pre @ ?rest) (8 + int ?hs) (8 + int ?hs + height * 8) 8 ?sds
       height 0 =
     Inr ((?pre @ ?table) @ drop (8 * ?H) ?rest, int (length (?pre @ ?table)))"
  proof -
    have "length ?table = 8 * ?H"
      by (simp add: length_concat comp_def sum_list_triv exr_offset_entry_def)
    then have l: "int (length ?pre) + 8 * int (?H - 0) = int (length (?pre @ ?table))"
      by simp
    show ?thesis
      using write_offset_table_layout [OF room4, of ?pre "8 + int ?hs + height * 8" 8 ?sds]
      unfolding l using H lpre by simp
  qed
  let ?rest5 = "drop (8 * ?H) ?rest"
  let ?recs = "concat (map (\<lambda>i. exr_scanline_record pixels ?pt ?cs width (int i)) [0..<?H])"
  have room5: "?R * (?H - 0) \<le> length ?rest5" by simp
  have s5: "write_scanlines ((?pre @ ?table) @ ?rest5) (int (length (?pre @ ?table))) pixels ?pt ?cs
      ?sds width height 0 = Inr ((?pre @ ?table) @ ?recs, int (length (?pre @ ?table)) + int (?R * ?H))"
  proof -
    have d: "drop (?R * (?H - 0)) ?rest5 = []" by simp
    have sds': "?sds = exr_payload_size ?pt ?cs (int ?W)" using sds W by simp
    show ?thesis
      using write_scanlines_layout [OF room5 _ sds', of "?pre @ ?table" pixels]
      unfolding d using W H by simp
  qed
  have table: "?table =
     concat (map (\<lambda>i. exr_offset_entry (exr_record_position ?pt ?cs width height (int i)))
                 [0..<?H])"
    by (simp add: exr_record_position_def sds mult.commute)
  have whole: "(?pre @ ?table) @ ?recs = exr_file pixels ?pt ?cs width height"
    unfolding table by (simp add: exr_file_def)
  have pre_rest: "(?m @ ?v @ ?hdr) @ drop (8 + ?hs) ?buf = ?pre @ ?rest" by simp
  show ?thesis
    unfolding writeEXR_def Let_def exr_pixelType_def [symmetric] exr_channels_def [symmetric]
    using alloc s1 s2 s3 s4 s5 whole
    by simp
qed


section \<open>Reading the layout back\<close>

lemma length_concat_blocks:
  "(\<And>j. j < n \<Longrightarrow> length (f j) = L) \<Longrightarrow> length (concat (map f [0..<n])) = n * L"
  by (induction n) simp_all

lemma mod_step: "(v::int) mod 256 + 256 * (v div 256 mod 256 ^ n) = v mod (256 * 256 ^ n)"
  by (simp add: zmod_zmult2_eq)

lemma concat_map_block:
  assumes "\<And>j. j < n \<Longrightarrow> length (f j) = L" "i < n"
  shows "take L (drop (i * L) (concat (map f [0..<n]))) = f i"
  using assms
proof (induction n)
  case 0
  then show ?case by simp
next
  case (Suc n)
  let ?A = "concat (map f [0..<n])"
  have lA: "length ?A = n * L"
    using Suc.prems(1) by (intro length_concat_blocks) simp
  show ?case
  proof (cases "i < n")
    case True
    then have "Suc i * L \<le> n * L" by (intro mult_le_mono1) simp
    then have le: "i * L + L \<le> n * L" by simp
    have "take L (drop (i * L) (?A @ f n)) = take L (drop (i * L) ?A)"
      using le lA by simp
    also have "\<dots> = f i" using Suc.IH Suc.prems(1) True by simp
    finally show ?thesis by simp
  next
    case False
    then have "i = n" using Suc.prems(2) by simp
    then show ?thesis using lA Suc.prems(1) by simp
  qed
qed



lemma le_value_append: "le_value (a @ b) = le_value a + 256 ^ length a * le_value b"
  unfolding le_value_def by (induction a) (simp_all add: algebra_simps)

lemma le_value_le_bytes: "le_value (le_bytes n v) = v mod 256 ^ n"
proof (induction n arbitrary: v)
  case 0
  then show ?case by (simp add: le_value_def)
next
  case (Suc n)
  have "le_value (le_bytes (Suc n) v) =
      uint (word_of_int v :: byte) + 256 * le_value (le_bytes n (v div 256))"
    by (simp add: le_value_def)
  also have "\<dots> = v mod 256 + 256 * ((v div 256) mod 256 ^ n)"
    using Suc.IH by (simp add: uint_word_of_int)
  also have "\<dots> = v mod 256 ^ Suc n"
    using mod_step [of v n] by simp
  finally show ?case .
qed

lemma exr_file_offset_entry:
  assumes "0 \<le> height" "i < nat height"
  shows "take 8 (drop (8 + length (buildHeader width height chans pt) + 8 * i)
                  (exr_file pixels pt chans width height)) =
         exr_offset_entry (exr_record_position pt chans width height (int i))"
proof -
  let ?hdr = "buildHeader width height chans pt"
  let ?pre = "le_bytes 4 EXR_MAGIC @ le_bytes 4 2 @ ?hdr"
  let ?f = "\<lambda>i. exr_offset_entry (exr_record_position pt chans width height (int i))"
  let ?table = "concat (map ?f [0..<nat height])"
  let ?recs = "concat (map (\<lambda>i. exr_scanline_record pixels pt chans width (int i)) [0..<nat height])"
  have whole: "exr_file pixels pt chans width height = ?pre @ ?table @ ?recs"
    by (simp add: exr_file_def)
  have lpre: "length ?pre = 8 + length ?hdr" by simp
  have lf: "\<And>j. length (?f j) = 8" by (simp add: exr_offset_entry_def)
  have lt: "length ?table = nat height * 8"
    by (rule length_concat_blocks) (rule lf)
  have "Suc i * 8 \<le> nat height * 8" using assms(2) by (intro mult_le_mono1) simp
  then have le: "i * 8 + 8 \<le> length ?table" using lt by simp
  have "drop (8 + length ?hdr + 8 * i) (?pre @ ?table @ ?recs) = drop (i * 8) ?table @ ?recs"
    using lpre le by (simp add: mult.commute)
  then have "take 8 (drop (8 + length ?hdr + 8 * i) (?pre @ ?table @ ?recs)) =
      take 8 (drop (i * 8) ?table)"
    using le by simp
  also have "\<dots> = ?f i"
    by (rule concat_map_block [OF lf assms(2)])
  finally show ?thesis unfolding whole .
qed

lemma exr_file_scanline_record:
  assumes "0 \<le> height" "i < nat height"
  shows "take (8 + length chans * (nat (exr_pixel_size pt) * nat width))
           (drop (8 + length (buildHeader width height chans pt) + 8 * nat height +
                  i * (8 + length chans * (nat (exr_pixel_size pt) * nat width)))
                  (exr_file pixels pt chans width height)) =
         exr_scanline_record pixels pt chans width (int i)"
proof -
  let ?hdr = "buildHeader width height chans pt"
  let ?pre = "le_bytes 4 EXR_MAGIC @ le_bytes 4 2 @ ?hdr"
  let ?f = "\<lambda>i. exr_offset_entry (exr_record_position pt chans width height (int i))"
  let ?g = "\<lambda>i. exr_scanline_record pixels pt chans width (int i)"
  let ?table = "concat (map ?f [0..<nat height])"
  let ?recs = "concat (map ?g [0..<nat height])"
  let ?R = "8 + length chans * (nat (exr_pixel_size pt) * nat width)"
  have whole: "exr_file pixels pt chans width height = (?pre @ ?table) @ ?recs"
    by (simp add: exr_file_def)
  have lf: "\<And>j. length (?f j) = 8" by (simp add: exr_offset_entry_def)
  have lt: "length ?table = nat height * 8"
    by (rule length_concat_blocks) (rule lf)
  have lpt: "length (?pre @ ?table) = 8 + length ?hdr + 8 * nat height"
    unfolding length_append lt by simp
  have lg: "\<And>j. length (?g j) = ?R" by simp
  have "drop (8 + length ?hdr + 8 * nat height + i * ?R) ((?pre @ ?table) @ ?recs) =
      drop (i * ?R) ?recs"
    using lpt by (simp only: drop_append) simp
  also have "take ?R (drop (i * ?R) ?recs) = ?g i"
    by (rule concat_map_block [OF lg assms(2)])
  finally show ?thesis unfolding whole .
qed


lemma exr_payload_size_nat:
  "0 \<le> width \<Longrightarrow>
   exr_payload_size pt chans width = int (length chans * (nat (exr_pixel_size pt) * nat width))"
  by (simp add: exr_payload_size_def exr_pixel_size_def)

lemma exr_record_position_nat:
  assumes "0 \<le> width" "0 \<le> height"
  shows "exr_record_position pt chans width height (int i) =
     int (8 + length (buildHeader width height chans pt) + 8 * nat height +
          i * (8 + length chans * (nat (exr_pixel_size pt) * nat width)))"
  unfolding exr_record_position_def exr_payload_size_nat [OF assms(1)]
  using assms(2) by simp

lemma nat_8_plus: "nat (8 + int n) = 8 + n"
  by simp

lemma writeEXR_record_at:
  assumes "0 \<le> width" "0 \<le> height" "writeEXR pixels width height options = Inr buf"
    and "0 \<le> y" "y < height"
  shows "take (nat (8 + exr_payload_size (exr_pixelType options) (exr_channels options) width))
           (drop (nat (exr_record_position (exr_pixelType options) (exr_channels options)
                         width height y)) buf) =
         exr_scanline_record pixels (exr_pixelType options) (exr_channels options) width y"
proof -
  let ?pt = "exr_pixelType options" and ?cs = "exr_channels options"
  have buf: "buf = exr_file pixels ?pt ?cs width height"
    using writeEXR_layout [OF assms(1,2), of pixels options] assms(3) by simp
  define i where "i = nat y"
  have y: "y = int i" using assms(4) by (simp add: i_def)
  have i: "i < nat height" using assms(4,5) by (simp add: i_def)
  have sz: "nat (8 + exr_payload_size ?pt ?cs width) =
      8 + length ?cs * (nat (exr_pixel_size ?pt) * nat width)"
    unfolding exr_payload_size_nat [OF assms(1)] by (rule nat_8_plus)
  show ?thesis
    unfolding buf sz y exr_record_position_nat [OF assms(1,2)] nat_int
    by (rule exr_file_scanline_record [OF assms(2) i])
qed

lemma writeEXR_entry_at:
  assumes "0 \<le> width" "0 \<le> height" "writeEXR pixels width height options = Inr buf"
    and "0 \<le> y" "y < height"
  shows "take 8 (drop (nat (8 + int (length (buildHeader width height (exr_channels options)
                                               (exr_pixelType options))) + 8 * y)) buf) =
         exr_offset_entry (exr_record_position (exr_pixelType options) (exr_channels options)
                             width height y)"
proof -
  let ?pt = "exr_pixelType options" and ?cs = "exr_channels options"
  have buf: "buf = exr_file pixels ?pt ?cs width height"
    using writeEXR_layout [OF assms(1,2), of pixels options] assms(3) by simp
  define i where "i = nat y"
  have y: "y = int i" using assms(4) by (simp add: i_def)
  have i: "i < nat height" using assms(4,5) by (simp add: i_def)
  have "8 + int (length (buildHeader width height ?cs ?pt)) + 8 * int i =
      int (8 + length (buildHeader width height ?cs ?pt) + 8 * i)" by simp
  then have pos: "nat (8 + int (length (buildHeader width height ?cs ?pt)) + 8 * int i) =
      8 + length (buildHeader width height ?cs ?pt) + 8 * i"
    by (simp only: nat_int)
  show ?thesis
    unfolding buf y pos
    by (rule exr_file_offset_entry [OF assms(2) i])
qed

lemma le_bytes_add: "le_bytes (m + n) v = le_bytes m v @ le_bytes n (v div 256 ^ m)"
proof (induction m arbitrary: v)
  case 0
  then show ?case by simp
next
  case (Suc m)
  have "v div 256 div 256 ^ m = v div 256 ^ Suc m"
    by (simp add: div_mult2_eq [symmetric] zdiv_zmult2_eq)
  then show ?case using Suc.IH [of "v div 256"] by simp
qed

lemma le_bytes_8_low:
  assumes "0 \<le> v" "v < 2 ^ 32"
  shows "le_bytes 8 v = le_bytes 4 v @ le_bytes 4 0"
proof -
  have "(256::int) ^ 4 = 2 ^ 32" by simp
  then have z: "v div 256 ^ 4 = 0" using assms by (simp only: div_pos_pos_trivial)
  have e: "(4::nat) + 4 = 8" by simp
  have "le_bytes (4 + 4) v = le_bytes 4 v @ le_bytes 4 (v div 256 ^ 4)"
    by (rule le_bytes_add)
  then show ?thesis unfolding z e .
qed


lemma le_bytes_4_zero: "le_bytes 4 0 = [0, 0, 0, 0]"
  by code_simp


lemma le_value_offset_entry: "le_value (exr_offset_entry pos) = pos mod 2 ^ 32"
  unfolding exr_offset_entry_def le_value_append le_value_le_bytes by simp

lemma buildHeader_length_default:
  "length (buildHeader width height [''R'', ''G'', ''B'', ''A''] pt) = 323"
  by (simp add: buildHeader_def writeAttribute_def buildChannelList_def channelEntry_def
      stringToBytes_def buildBox2i_def)




section \<open>readPixelsAsync: the calls issued\<close>






section \<open>HDRRenderLoop: what a frame leaves unchanged\<close>


lemma same_run_trans: "same_run s s1 \<Longrightarrow> same_run s1 s2 \<Longrightarrow> same_run s s2"
  by (simp add: same_run_def)

lemma callFrameStart_same: "callFrameStart p s frame = (s1, r) \<Longrightarrow> same_run s s1"
  by (auto simp add: callFrameStart_def same_run_def split: option.splits)

lemma callUpdateFrame_same: "callUpdateFrame p s frame = (s1, r) \<Longrightarrow> same_run s s1"
  by (auto simp add: callUpdateFrame_def same_run_def split: option.splits)

lemma callFrameComplete_same: "callFrameComplete p s frame px = (s1, r) \<Longrightarrow> same_run s s1"
  by (auto simp add: callFrameComplete_def same_run_def split: option.splits)


lemma renderToHDR_same: "renderToHDR p s = (s1, r) \<Longrightarrow> same_run s s1"
  by (auto simp add: renderToHDR_def Let_def same_run_def split: sum.splits)


lemma frame_steps_same:
  assumes "frame_steps p s frame = (s', r)"
  shows "same_run s s'"
proof -
  obtain s1 r1 where a: "callFrameStart p s frame = (s1, r1)"
    by (cases "callFrameStart p s frame")
  obtain s2 r2 where b: "callUpdateFrame p s1 frame = (s2, r2)"
    by (cases "callUpdateFrame p s1 frame")
  obtain s3 r3 where c: "renderToHDR p s2 = (s3, r3)"
    by (cases "renderToHDR p s2")
  note A = callFrameStart_same [OF a] and B = callUpdateFrame_same [OF b]
    and C = renderToHDR_same [OF c]
  show ?thesis
  proof (cases r1)
    case (Some e)
    then show ?thesis using assms a A by (simp add: frame_steps_def)
  next
    case None
    note r1 = this
    show ?thesis
    proof (cases r2)
      case (Some e)
      then show ?thesis using assms a b r1 same_run_trans [OF A B] by (simp add: frame_steps_def)
    next
      case None
      note r2 = this
      show ?thesis
      proof (cases r3)
        case (Inl e)
        then show ?thesis
          using assms a b c r1 r2 same_run_trans [OF same_run_trans [OF A B] C]
          by (simp add: frame_steps_def)
      next
        case (Inr px)
        obtain s4 r4 where d: "callFrameComplete p s3 frame px = (s4, r4)"
          by (cases "callFrameComplete p s3 frame px")
        have "s' = s4" using assms a b c d r1 r2 Inr
          by (cases r4) (simp_all add: frame_steps_def)
        then show ?thesis
          using same_run_trans [OF same_run_trans [OF same_run_trans [OF A B] C]
              callFrameComplete_same [OF d]]
          by simp
      qed
    qed
  qed
qed




section \<open>HDRRenderLoop: the example run\<close>





section \<open>Properties of the program\<close>






text \<open>
  C3. While a render sequence is in progress (\<open>_isRendering\<close> true), a second call of
  \<open>renderSequence\<close> throws the error "A render sequence is already in progress" at its
  guard, before the try block: it yields no frame, calls no hook and redraws nothing
  (\<open>calls\<close> is unchanged), and it returns the loop object exactly as it was, so the saved
  framebuffer and the flag of the run in progress are untouched and that run goes on
  from the same state, yielding the frames it would have yielded.
\<close>

theorem renderSequence_rejects_second_call:
  assumes "isRendering s"
  shows "renderSequence p consumer s options =
       (s, [], Threw (Error ''HDRRenderLoop: A render sequence is already in progress'')) \<and>
     originalFramebuffer (fst (renderSequence p consumer s options)) = originalFramebuffer s \<and>
     isRendering (fst (renderSequence p consumer s options)) \<and>
     calls (fst (renderSequence p consumer s options)) = calls s \<and>
     sequence_loop p' consumer' (fst (renderSequence p consumer s options)) frame endF =
       sequence_loop p' consumer' s frame endF \<and>
     isRendering (fst (frame_steps p' s frame))"
proof -
  obtain s1 r1 where st: "frame_steps p' s frame = (s1, r1)"
    by (cases "frame_steps p' s frame")
  have "isRendering (fst (frame_steps p' s frame))"
    using frame_steps_same [OF st] st assms by (simp add: same_run_def)
  then show ?thesis using assms by (simp add: renderSequence_def Let_def)
qed

theorem renderSequence_rejects_second_call_witness:
  "isRendering (beginExport example_props (example_loop\<lparr>isRendering := True\<rparr>)) \<and>
   renderSequence example_props (\<lambda>r. True)
       (beginExport example_props (example_loop\<lparr>isRendering := True\<rparr>))
       \<lparr>startFrame = None, endFrame = 2\<rparr> =
     (beginExport example_props (example_loop\<lparr>isRendering := True\<rparr>), [],
      Threw (Error ''HDRRenderLoop: A render sequence is already in progress'')) \<and>
   originalFramebuffer (beginExport example_props (example_loop\<lparr>isRendering := True\<rparr>)) = Fb 1"
proof -
  let ?s = "beginExport example_props (example_loop\<lparr>isRendering := True\<rparr>)"
  have r: "isRendering ?s" by (simp add: beginExport_def Let_def)
  have o: "originalFramebuffer ?s = Fb 1"
    by (simp add: beginExport_def Let_def example_loop_def example_deck_def)
  from renderSequence_rejects_second_call [OF r, of example_props "\<lambda>r. True"
      "\<lparr>startFrame = None, endFrame = 2\<rparr>"]
  have "renderSequence example_props (\<lambda>r. True) ?s \<lparr>startFrame = None, endFrame = 2\<rparr> =
     (?s, [], Threw (Error ''HDRRenderLoop: A render sequence is already in progress''))"
    by blast
  with r o show ?thesis by simp
qed







text \<open>
  C6. \<open>flipPixelsVertically\<close> is pure and an involution. For a buffer \<open>data\<close> of
  \<open>width * height * channels\<close> elements (of any element type: bytes for \<open>Uint8Array\<close>,
  binary32 patterns for \<open>Float32Array\<close>) the call succeeds, returns a freshly allocated
  buffer (its address is not one of the store) of the same length, leaves every buffer
  that existed before, the input among them, as it was, puts row \<open>i\<close> of the input at row
  \<open>height - 1 - i\<close> of the output, and a second call on the output with the same
  dimensions returns a buffer equal to the input, element by element.
\<close>

theorem flipPixelsVertically_pure:
  fixes st :: "'a::zero store"
  assumes "data < length st" "0 \<le> width" "0 \<le> height" "0 \<le> nchannels"
    and "int (length (st ! data)) = width * height * nchannels"
  shows "\<exists>st' st''.
      flipPixelsVertically st data width height nchannels = Inr (st', length st) \<and>
      length st' = Suc (length st) \<and>
      (\<forall>b<length st. st' ! b = st ! b) \<and>
      length (st' ! length st) = length (st ! data) \<and>
      (\<forall>i<nat height. row_of (nat (width * nchannels)) (nat height - 1 - i) (st' ! length st)
                        = row_of (nat (width * nchannels)) i (st ! data)) \<and>
      flipPixelsVertically st' (length st) width height nchannels = Inr (st'', length st') \<and>
      st'' ! length st' = st ! data \<and> (\<forall>b<length st'. st'' ! b = st' ! b)"
proof -
  let ?N = "nat (width * nchannels)" and ?H = "nat height"
  have N: "width * nchannels = int ?N" using assms(2,4) by simp
  have H: "height = int ?H" using assms(3) by simp
  have "int (length (st ! data)) = int (?H * ?N)"
    using assms(5) N H by (simp add: mult.commute mult.left_commute)
  then have L: "length (st ! data) = ?H * ?N" by linarith
  from flipPixelsVertically_rows [OF assms(1) L N H] obtain st' where
      r1: "flipPixelsVertically st data width height nchannels = Inr (st', length st)"
    and l1: "length st' = Suc (length st)"
    and o1: "\<forall>b<length st. st' ! b = st ! b"
    and f1: "length (st' ! length st) = ?H * ?N"
    and rows1: "\<forall>j<?H. row_of ?N j (st' ! length st) = row_of ?N (?H - 1 - j) (st ! data)"
    by blast
  have d2: "length st < length st'" using l1 by simp
  from flipPixelsVertically_rows [OF d2 f1 N H] obtain st'' where
      r2: "flipPixelsVertically st' (length st) width height nchannels = Inr (st'', length st')"
    and l2: "length st'' = Suc (length st')"
    and o2: "\<forall>b<length st'. st'' ! b = st' ! b"
    and f2: "length (st'' ! length st') = ?H * ?N"
    and rows2: "\<forall>j<?H. row_of ?N j (st'' ! length st') = row_of ?N (?H - 1 - j) (st' ! length st)"
    by blast
  have again: "st'' ! length st' = st ! data"
  proof (rule rows_eq [OF f2 L])
    fix j assume j: "j < ?H"
    then have "row_of ?N j (st'' ! length st') = row_of ?N (?H - 1 - j) (st' ! length st)"
      using rows2 by simp
    also have "\<dots> = row_of ?N (?H - 1 - (?H - 1 - j)) (st ! data)"
      using rows1 j by simp
    also have "?H - 1 - (?H - 1 - j) = j" using j by simp
    finally show "row_of ?N j (st'' ! length st') = row_of ?N j (st ! data)" .
  qed
  have rows: "\<forall>i<?H. row_of ?N (?H - 1 - i) (st' ! length st) = row_of ?N i (st ! data)"
  proof (intro allI impI)
    fix i assume i: "i < ?H"
    then have "?H - 1 - i < ?H" by simp
    then have "row_of ?N (?H - 1 - i) (st' ! length st) = row_of ?N (?H - 1 - (?H - 1 - i)) (st ! data)"
      using rows1 by blast
    also have "?H - 1 - (?H - 1 - i) = i" using i by simp
    finally show "row_of ?N (?H - 1 - i) (st' ! length st) = row_of ?N i (st ! data)" .
  qed
  have "length (st' ! length st) = length (st ! data)" using f1 L by simp
  with r1 l1 o1 rows r2 again o2 show ?thesis by blast
qed


theorem flipPixelsVertically_pure_witness:
  "(0::nat) < length [[1, 2, 3, 4, 5, 6 :: byte]] \<and> (0::int) \<le> 1 \<and> (0::int) \<le> 3 \<and> (0::int) \<le> 2 \<and>
   int (length ([[1, 2, 3, 4, 5, 6 :: byte]] ! 0)) = 1 * 3 * 2 \<and>
   flipPixelsVertically [[1, 2, 3, 4, 5, 6 :: byte]] 0 1 3 2 =
     Inr ([[1, 2, 3, 4, 5, 6], [5, 6, 3, 4, 1, 2]], 1) \<and>
   (\<exists>st''. flipPixelsVertically [[1, 2, 3, 4, 5, 6 :: byte], [5, 6, 3, 4, 1, 2]] 1 1 3 2 =
             Inr (st'', 2) \<and> st'' ! 2 = [1, 2, 3, 4, 5, 6])"
proof -
  let ?st = "[[1, 2, 3, 4, 5, 6 :: byte]]"
  have h: "(0::nat) < length ?st" "(0::int) \<le> 1" "(0::int) \<le> 3" "(0::int) \<le> 2"
    "int (length (?st ! 0)) = 1 * 3 * 2"
    by simp_all
  have run: "flipPixelsVertically ?st 0 1 3 2 =
     Inr ([[1, 2, 3, 4, 5, 6], [5, 6, 3, 4, 1, 2]], 1)"
    by code_simp
  from flipPixelsVertically_pure [OF h] obtain st' st'' where
      r1: "flipPixelsVertically ?st 0 1 3 2 = Inr (st', length ?st)"
    and r2: "flipPixelsVertically st' (length ?st) 1 3 2 = Inr (st'', length st')"
    and eq: "st'' ! length st' = ?st ! 0"
    by blast
  from r1 run have st': "st' = [[1, 2, 3, 4, 5, 6], [5, 6, 3, 4, 1, 2]]" by simp
  from r2 eq have "flipPixelsVertically [[1, 2, 3, 4, 5, 6 :: byte], [5, 6, 3, 4, 1, 2]] 1 1 3 2 =
             Inr (st'', 2) \<and> st'' ! 2 = [1, 2, 3, 4, 5, 6]"
    unfolding st' by (simp add: numeral_2_eq_2)
  then show ?thesis using h run by blast
qed

text \<open>
  C7. For a buffer produced by \<open>writeEXR\<close> with positive width and height, entry \<open>i\<close> of
  the offset table (the 8 bytes at \<open>8 + headerSize + 8 * i\<close>) holds, whenever the position
  \<open>8 + headerSize + 8 * height + i * (8 + width * numChannels * pixelSize)\<close> of the record
  of scanline \<open>i\<close> is below \<open>2^32\<close>, that position as a little-endian 8-byte value with
  zero high 4 bytes, and the record of scanline \<open>i\<close> starts at that position. The code
  stores the low 32 bits of the position and a constant zero for the high 32 bits, so
  in general the entry holds the position modulo \<open>2^32\<close>.
\<close>

theorem writeEXR_offset_table:
  assumes "0 < width" "0 < height"
    and "writeEXR pixels width height options = Inr buf"
    and "0 \<le> i" "i < height"
    and "pt = exr_pixelType options" "chans = exr_channels options"
    and "headerSize = int (length (buildHeader width height chans pt))"
    and "pixelSize = (if pt = Half then 2 else 4)"
    and "pos = 8 + headerSize + 8 * height + i * (8 + width * int (length chans) * pixelSize)"
    and "entry = take 8 (drop (nat (8 + headerSize + 8 * i)) buf)"
  shows "le_value entry = pos mod 2 ^ 32 \<and> drop 4 entry = [0, 0, 0, 0] \<and>
     (pos < 2 ^ 32 \<longrightarrow>
        entry = le_bytes 8 pos \<and> le_value entry = pos \<and>
        take (nat (8 + width * int (length chans) * pixelSize)) (drop (nat (le_value entry)) buf) =
          exr_scanline_record pixels pt chans width i)"
proof -
  have w: "0 \<le> width" and h: "0 \<le> height" using assms(1,2) by simp_all
  have pos: "pos = exr_record_position pt chans width height i"
    unfolding assms(10) assms(8) exr_record_position_def exr_payload_size_def exr_pixel_size_def
      assms(9) by simp
  have size: "width * int (length chans) * pixelSize = exr_payload_size pt chans width"
    unfolding exr_payload_size_def exr_pixel_size_def assms(9) by simp
  have entry: "entry = exr_offset_entry pos"
    unfolding assms(11) assms(8) assms(6) assms(7) pos
    by (rule writeEXR_entry_at [OF w h assms(3,4,5)])
  have pos0: "0 \<le> pos"
    unfolding pos exr_record_position_def exr_payload_size_nat [OF w]
    using h assms(4) by simp
  have val: "le_value entry = pos mod 2 ^ 32"
    unfolding entry exr_offset_entry_def le_value_append le_value_le_bytes by simp
  have high: "drop 4 entry = [0, 0, 0, 0]"
    unfolding entry exr_offset_entry_def by (simp add: le_bytes_4_zero)
  have small: "entry = le_bytes 8 pos \<and> le_value entry = pos \<and>
      take (nat (8 + width * int (length chans) * pixelSize)) (drop (nat (le_value entry)) buf) =
        exr_scanline_record pixels pt chans width i" if lt: "pos < 2 ^ 32"
  proof -
    have v: "le_value entry = pos" using val pos0 lt by simp
    have e: "entry = le_bytes 8 pos"
      unfolding entry exr_offset_entry_def by (rule le_bytes_8_low [OF pos0 lt, symmetric])
    have "take (nat (8 + exr_payload_size pt chans width))
            (drop (nat (exr_record_position pt chans width height i)) buf) =
          exr_scanline_record pixels pt chans width i"
      unfolding assms(6,7) by (rule writeEXR_record_at [OF w h assms(3,4,5)])
    then show ?thesis unfolding v size pos using e v pos by simp
  qed
  from val high small show ?thesis by blast
qed


theorem writeEXR_offset_table_witness:
  "(0::int) < 1 \<and> (0::int) \<le> 0 \<and>
   writeEXR [0x3F800000, 0, 0, 0x3F800000] 1 1 \<lparr>pixelType = None, channels = None\<rparr> =
     Inr (exr_file [0x3F800000, 0, 0, 0x3F800000] Half [''R'', ''G'', ''B'', ''A''] 1 1) \<and>
   (8 + 323 + 8 * 1 + 0 * (8 + 1 * 4 * 2) :: int) = 339 \<and> (339::int) < 2 ^ 32 \<and>
   take 8 (drop 331 (exr_file [0x3F800000, 0, 0, 0x3F800000] Half [''R'', ''G'', ''B'', ''A''] 1 1))
     = le_bytes 8 339 \<and>
   take 16 (drop 339 (exr_file [0x3F800000, 0, 0, 0x3F800000] Half [''R'', ''G'', ''B'', ''A''] 1 1))
     = exr_scanline_record [0x3F800000, 0, 0, 0x3F800000] Half [''R'', ''G'', ''B'', ''A''] 1 0"
proof -
  let ?px = "[0x3F800000, 0, 0, 0x3F800000] :: int32 list"
  let ?o = "\<lparr>pixelType = None, channels = None\<rparr>"
  let ?cs = "[''R'', ''G'', ''B'', ''A'']"
  have pt: "Half = exr_pixelType ?o" and cs: "?cs = exr_channels ?o"
    by (simp_all add: exr_pixelType_def exr_channels_def)
  have run: "writeEXR ?px 1 1 ?o = Inr (exr_file ?px Half ?cs 1 1)"
    using writeEXR_layout [of 1 1 ?px ?o] by (simp add: exr_pixelType_def exr_channels_def)
  have hs: "323 = int (length (buildHeader 1 1 ?cs Half))"
    by (simp add: buildHeader_length_default)
  have ps: "(2::int) = (if Half = Half then 2 else 4)" by simp
  have pos: "(339::int) = 8 + 323 + 8 * 1 + 0 * (8 + 1 * int (length ?cs) * 2)" by simp
  have e: "take 8 (drop 331 (exr_file ?px Half ?cs 1 1)) =
      take 8 (drop (nat (8 + 323 + 8 * 0)) (exr_file ?px Half ?cs 1 1))" by simp
  have lt: "(339::int) < 2 ^ 32" by simp
  have p1: "(0::int) < 1" and p0: "(0::int) \<le> 0" by simp_all
  have "(339::int) < 2 ^ 32 \<longrightarrow>
      take 8 (drop 331 (exr_file ?px Half ?cs 1 1)) = le_bytes 8 339 \<and>
      le_value (take 8 (drop 331 (exr_file ?px Half ?cs 1 1))) = 339 \<and>
      take (nat (8 + 1 * int (length ?cs) * 2))
        (drop (nat (le_value (take 8 (drop 331 (exr_file ?px Half ?cs 1 1)))))
           (exr_file ?px Half ?cs 1 1)) = exr_scanline_record ?px Half ?cs 1 0"
    using writeEXR_offset_table [OF p1 p1 run p0 p1 pt cs hs ps pos e] by blast
  with lt have a: "take 8 (drop 331 (exr_file ?px Half ?cs 1 1)) = le_bytes 8 339"
    and b: "le_value (take 8 (drop 331 (exr_file ?px Half ?cs 1 1))) = 339"
    and c: "take (nat (8 + 1 * int (length ?cs) * 2))
        (drop (nat (le_value (take 8 (drop 331 (exr_file ?px Half ?cs 1 1)))))
           (exr_file ?px Half ?cs 1 1)) = exr_scanline_record ?px Half ?cs 1 0"
    by blast+
  have c': "take 16 (drop 339 (exr_file ?px Half ?cs 1 1)) = exr_scanline_record ?px Half ?cs 1 0"
    using c unfolding b by simp
  from run a c' show ?thesis by simp
qed

theorem writeEXR_offset_table_counterexample:
  "writeEXR [] 16384 16384 \<lparr>pixelType = Some Float, channels = None\<rparr> =
     Inr (exr_file [] Float [''R'', ''G'', ''B'', ''A''] 16384 16384) \<and>
   length (buildHeader 16384 16384 [''R'', ''G'', ''B'', ''A''] Float) = 323 \<and>
   (8 + 323 + 8 * 16384 + 16383 * (8 + 16384 * 4 * 4) :: int) = 4294967619 \<and>
   le_value (take 8 (drop (8 + 323 + 8 * 16383)
                       (exr_file [] Float [''R'', ''G'', ''B'', ''A''] 16384 16384))) = 323 \<and>
   drop 4 (take 8 (drop (8 + 323 + 8 * 16383)
                     (exr_file [] Float [''R'', ''G'', ''B'', ''A''] 16384 16384))) = [0, 0, 0, 0]"
proof -
  let ?o = "\<lparr>pixelType = Some Float, channels = None\<rparr>"
  let ?cs = "[''R'', ''G'', ''B'', ''A'']"
  let ?f = "exr_file [] Float ?cs 16384 16384"
  have run: "writeEXR [] 16384 16384 ?o = Inr ?f"
    using writeEXR_layout [of 16384 16384 "[]" ?o]
    by (simp add: exr_pixelType_def exr_channels_def)
  have hs: "length (buildHeader 16384 16384 ?cs Float) = 323"
    by (rule buildHeader_length_default)
  have i: "(16383::nat) < nat 16384" by simp
  have "take 8 (drop (8 + length (buildHeader 16384 16384 ?cs Float) + 8 * 16383) ?f) =
      exr_offset_entry (exr_record_position Float ?cs 16384 16384 (int 16383))"
    by (rule exr_file_offset_entry [OF _ i]) simp
  moreover have "exr_record_position Float ?cs 16384 16384 (int 16383) = 4294967619"
    by (simp add: exr_record_position_def hs exr_payload_size_def exr_pixel_size_def)
  ultimately have entry: "take 8 (drop (8 + 323 + 8 * 16383) ?f) = exr_offset_entry 4294967619"
    unfolding hs by simp
  have v: "le_value (take 8 (drop (8 + 323 + 8 * 16383) ?f)) = 323"
    unfolding entry le_value_offset_entry by simp
  have z: "drop 4 (take 8 (drop (8 + 323 + 8 * 16383) ?f)) = [0, 0, 0, 0]"
    unfolding entry exr_offset_entry_def by (simp add: le_bytes_4_zero)
  from run hs v z show ?thesis by simp
qed








end
